theory Spec2Isabelle
  imports Complex_Main "HOL-Library.Word"
begin

section \<open>Errors\<close>

text \<open>
  Every way the C code stops without a result is a value of \<open>error\<close>:
  the explicit \<^verbatim>\<open>exit(EXIT_FAILURE)\<close> calls of the source, and the undefined behaviour
  of C (reading or writing outside an array, using a pointer that is NULL, was never
  allocated or was freed before), which the model reports instead of hiding.
\<close>

datatype error =
    OutOfBounds
  | InvalidFunction int
  | InvalidPointer
  | NullPointer
  | LayerNotFound
  | OnlyLayer
  | ReadError
  | EmptyArgs
  | InputChannels
  | InputHeight
  | InputWidth
  | NumInputs
  | MaxNeuronGrow

text \<open>
  A result is \<open>Inl\<close> of the error or \<open>Inr\<close> of the value; \<open>bind_err\<close> runs the next
  statement on the value and passes an error on.
\<close>

definition bind_err :: "error + 'a \<Rightarrow> ('a \<Rightarrow> error + 'b) \<Rightarrow> error + 'b" where
  "bind_err m f = (case m of Inl e \<Rightarrow> Inl e | Inr v \<Rightarrow> f v)"

section \<open>GP trees (gp.c)\<close>

definition GP_MAX_LEN :: int where "GP_MAX_LEN = 10000"
definition GP_NUM_FUNC :: int where "GP_NUM_FUNC = 4"
definition ADD :: int where "ADD = 0"
definition SUB :: int where "SUB = 1"
definition MUL :: int where "MUL = 2"
definition DIV :: int where "DIV = 3"
definition N_MU :: nat where "N_MU = 1"

lemmas gp_consts = GP_NUM_FUNC_def ADD_def SUB_def MUL_def DIV_def

text \<open>
  The C type \<^verbatim>\<open>double\<close> is the type parameter \<open>'d\<close>. The operations the code applies to
  doubles are the fields of \<open>fp_ops\<close>: the four arithmetic operators, the test
  \<^verbatim>\<open>den == 0\<close> and the comparison \<^verbatim>\<open><\<close>. A general theorem holds for whatever these
  operations are (IEEE-754 doubles included); \<open>real_ops\<close> instantiates them on the reals
  to run concrete inputs whose double arithmetic is exact.
\<close>

record 'd fp_ops =
  fp_add :: "'d \<Rightarrow> 'd \<Rightarrow> 'd"
  fp_sub :: "'d \<Rightarrow> 'd \<Rightarrow> 'd"
  fp_mul :: "'d \<Rightarrow> 'd \<Rightarrow> 'd"
  fp_div :: "'d \<Rightarrow> 'd \<Rightarrow> 'd"
  fp_is_zero :: "'d \<Rightarrow> bool"
  fp_less :: "'d \<Rightarrow> 'd \<Rightarrow> bool"

definition real_ops :: "real fp_ops" where
  "real_ops =
     \<lparr>fp_add = (\<lambda>a b. a + b), fp_sub = (\<lambda>a b. a - b), fp_mul = (\<lambda>a b. a * b),
      fp_div = (\<lambda>a b. a / b), fp_is_zero = (\<lambda>a. a = 0), fp_less = (\<lambda>a b. a < b)\<rparr>"

text \<open>
  The fields of \<^verbatim>\<open>struct XCSF\<close> that gp.c reads, and \<^verbatim>\<open>struct GP_TREE\<close>. The array
  \<open>tree\<close> is the allocated block (its length is the allocation, \<open>len\<close> the stored field);
  \<open>mu\<close> is a pointer: \<open>None\<close> when it points to no allocated block.
\<close>

record 'd XCSF =
  GP_NUM_CONS :: int
  GP_INIT_DEPTH :: int
  x_dim :: int
  gp_cons :: "'d list"

record 'd GP_TREE =
  tree :: "int list"
  len :: int
  p :: int
  mu :: "'d list option"

subsection \<open>tree_traverse\<close>

text \<open>
  \<^verbatim>\<open>tree_traverse(tree, p)\<close>: the position after the sub-tree that starts at \<open>pos\<close>.
  A read past the end of the array is \<open>OutOfBounds\<close>; a code below \<open>GP_NUM_FUNC\<close> that is
  none of the four functions takes the \<^verbatim>\<open>default\<close> branch and exits.
\<close>

function tree_traverse :: "int list \<Rightarrow> nat \<Rightarrow> error + nat" where
  "tree_traverse t pos =
     (if length t \<le> pos then Inl OutOfBounds
      else if t ! pos \<ge> GP_NUM_FUNC then Inr (pos + 1)
      else if t ! pos = ADD \<or> t ! pos = SUB \<or> t ! pos = MUL \<or> t ! pos = DIV then
        (case tree_traverse t (pos + 1) of
           Inl e \<Rightarrow> Inl e
         | Inr q \<Rightarrow> tree_traverse t q)
      else Inl (InvalidFunction (t ! pos)))"
  by pat_completeness auto

lemma tree_traverse_dom_gt:
  "tree_traverse_dom (t, pos) \<Longrightarrow> tree_traverse t pos = Inr q \<Longrightarrow> pos < q"
proof (induction t pos arbitrary: q rule: tree_traverse.pinduct)
  case (1 t pos)
  show ?case
  proof (cases "tree_traverse t (pos + 1)")
    case (Inl e)
    with 1 show ?thesis by (auto simp: tree_traverse.psimps split: if_splits)
  next
    case (Inr m)
    with 1 show ?thesis by (fastforce simp: tree_traverse.psimps split: if_splits)
  qed
qed

termination tree_traverse
proof (relation "measure (\<lambda>(t, pos). length t - pos)", goal_cases)
  case 1
  show ?case by simp
next
  case (2 t pos)
  then show ?case by simp
next
  case (3 t pos q)
  then show ?case using tree_traverse_dom_gt[of t "pos + 1" q] by simp
qed

declare tree_traverse.simps [simp del]

subsection \<open>tree_eval\<close>

text \<open>
  \<^verbatim>\<open>tree_eval(xcsf, gp, x)\<close> reads the node at the cursor \<open>gp->p\<close>, advances the cursor and
  recurses; the model returns the value with the tree whose cursor has advanced. The two
  operands of \<^verbatim>\<open>+\<close>, \<^verbatim>\<open>-\<close> and \<^verbatim>\<open>*\<close> are evaluated left to right here (C leaves their
  order open); \<^verbatim>\<open>DIV\<close> sequences numerator and denominator itself.
\<close>

function tree_eval ::
  "'d fp_ops \<Rightarrow> 'd XCSF \<Rightarrow> 'd GP_TREE \<Rightarrow> 'd list \<Rightarrow> error + ('d \<times> 'd GP_TREE)" where
  "tree_eval ops xcsf gp x =
     (if p gp < 0 \<or> int (length (tree gp)) \<le> p gp then Inl OutOfBounds
      else
        let node = tree gp ! nat (p gp);
            gp1 = gp\<lparr>p := p gp + 1\<rparr>
        in
        if node \<ge> GP_NUM_FUNC + GP_NUM_CONS xcsf then
          (if node - GP_NUM_FUNC - GP_NUM_CONS xcsf < int (length x)
           then Inr (x ! nat (node - GP_NUM_FUNC - GP_NUM_CONS xcsf), gp1)
           else Inl OutOfBounds)
        else if node \<ge> GP_NUM_FUNC then
          (if node - GP_NUM_FUNC < int (length (gp_cons xcsf))
           then Inr (gp_cons xcsf ! nat (node - GP_NUM_FUNC), gp1)
           else Inl OutOfBounds)
        else if node = ADD then
          (case tree_eval ops xcsf gp1 x of
             Inl e \<Rightarrow> Inl e
           | Inr (a, gp2) \<Rightarrow>
               (case tree_eval ops xcsf gp2 x of
                  Inl e \<Rightarrow> Inl e
                | Inr (b, gp3) \<Rightarrow> Inr (fp_add ops a b, gp3)))
        else if node = SUB then
          (case tree_eval ops xcsf gp1 x of
             Inl e \<Rightarrow> Inl e
           | Inr (a, gp2) \<Rightarrow>
               (case tree_eval ops xcsf gp2 x of
                  Inl e \<Rightarrow> Inl e
                | Inr (b, gp3) \<Rightarrow> Inr (fp_sub ops a b, gp3)))
        else if node = MUL then
          (case tree_eval ops xcsf gp1 x of
             Inl e \<Rightarrow> Inl e
           | Inr (a, gp2) \<Rightarrow>
               (case tree_eval ops xcsf gp2 x of
                  Inl e \<Rightarrow> Inl e
                | Inr (b, gp3) \<Rightarrow> Inr (fp_mul ops a b, gp3)))
        else if node = DIV then
          (case tree_eval ops xcsf gp1 x of
             Inl e \<Rightarrow> Inl e
           | Inr (num, gp2) \<Rightarrow>
               (case tree_eval ops xcsf gp2 x of
                  Inl e \<Rightarrow> Inl e
                | Inr (den, gp3) \<Rightarrow>
                    if fp_is_zero ops den then Inr (num, gp3)
                    else Inr (fp_div ops num den, gp3)))
        else Inl (InvalidFunction node))"
  by pat_completeness auto

lemma tree_eval_dom_step:
  "tree_eval_dom (ops, xcsf, gp, x) \<Longrightarrow> tree_eval ops xcsf gp x = Inr (v, gp') \<Longrightarrow>
     tree gp' = tree gp \<and> p gp < p gp'"
proof (induction ops xcsf gp x arbitrary: v gp' rule: tree_eval.pinduct)
  case (1 ops xcsf gp x)
  let ?gp1 = "gp\<lparr>p := p gp + 1\<rparr>"
  let ?node = "tree gp ! nat (p gp)"
  from "1.prems" have inb: "\<not> (p gp < 0 \<or> int (length (tree gp)) \<le> p gp)"
    by (auto simp: tree_eval.psimps[OF "1.hyps"])
  show ?case
  proof (cases "?node \<ge> GP_NUM_FUNC + GP_NUM_CONS xcsf \<or> ?node \<ge> GP_NUM_FUNC")
    case True
    with "1.prems" inb show ?thesis
      by (auto simp: tree_eval.psimps[OF "1.hyps"] Let_def split: if_splits)
  next
    case False
    with "1.prems" inb obtain a gp2 b where
      e1: "tree_eval ops xcsf ?gp1 x = Inr (a, gp2)" and
      e2: "tree_eval ops xcsf gp2 x = Inr (b, gp')" and
      fn: "?node = ADD \<or> ?node = SUB \<or> ?node = MUL \<or> ?node = DIV"
      by (auto simp: tree_eval.psimps[OF "1.hyps"] Let_def
               split: if_splits sum.splits prod.splits)
    have c1: "\<not> GP_NUM_FUNC + GP_NUM_CONS xcsf \<le> ?node" and c2: "\<not> GP_NUM_FUNC \<le> ?node"
      using False by auto
    from fn have "(tree gp2 = tree ?gp1 \<and> p ?gp1 < p gp2) \<and> (tree gp' = tree gp2 \<and> p gp2 < p gp')"
    proof (elim disjE)
      assume n: "?node = ADD"
      show ?thesis
        using "1.IH"(1)[OF inb refl refl c1 c2 n e1]
              "1.IH"(2)[OF inb refl refl c1 c2 n e1 refl e2] by simp
    next
      assume n: "?node = SUB"
      have n0: "?node \<noteq> ADD" using n by (simp add: gp_consts)
      show ?thesis
        using "1.IH"(3)[OF inb refl refl c1 c2 n0 n e1]
              "1.IH"(4)[OF inb refl refl c1 c2 n0 n e1 refl e2] by simp
    next
      assume n: "?node = MUL"
      have n0: "?node \<noteq> ADD" and n1: "?node \<noteq> SUB" using n by (simp_all add: gp_consts)
      show ?thesis
        using "1.IH"(5)[OF inb refl refl c1 c2 n0 n1 n e1]
              "1.IH"(6)[OF inb refl refl c1 c2 n0 n1 n e1 refl e2] by simp
    next
      assume n: "?node = DIV"
      have n0: "?node \<noteq> ADD" and n1: "?node \<noteq> SUB" and n2: "?node \<noteq> MUL"
        using n by (simp_all add: gp_consts)
      show ?thesis
        using "1.IH"(7)[OF inb refl refl c1 c2 n0 n1 n2 n e1]
              "1.IH"(8)[OF inb refl refl c1 c2 n0 n1 n2 n e1 refl e2] by simp
    qed
    then show ?thesis by simp
  qed
qed

termination tree_eval
proof (relation "measure (\<lambda>(ops, xcsf, gp, x). nat (int (length (tree gp)) - p gp))",
       goal_cases)
  case 1
  show ?case by simp
next
  case 2
  then show ?case by simp
next
  case (3 ops xcsf gp x node gp1 r a gp2)
  then show ?case using tree_eval_dom_step[of ops xcsf gp1 x a gp2] by simp
next
  case 4
  then show ?case by simp
next
  case (5 ops xcsf gp x node gp1 r a gp2)
  then show ?case using tree_eval_dom_step[of ops xcsf gp1 x a gp2] by simp
next
  case 6
  then show ?case by simp
next
  case (7 ops xcsf gp x node gp1 r a gp2)
  then show ?case using tree_eval_dom_step[of ops xcsf gp1 x a gp2] by simp
next
  case 8
  then show ?case by simp
next
  case (9 ops xcsf gp x node gp1 r a gp2)
  then show ?case using tree_eval_dom_step[of ops xcsf gp1 x a gp2] by simp
qed

declare tree_eval.simps [simp del]

subsection \<open>Scenario S2\<close>

text \<open>
  The tree \<open>DIV(IN:0, SUB(IN:0, IN:0))\<close>: with \<open>nc\<close> shared constants, input variable 0 has
  the code \<open>GP_NUM_FUNC + nc\<close>.
\<close>

definition s2_xcsf :: "int \<Rightarrow> real list \<Rightarrow> real XCSF" where
  "s2_xcsf nc cs = \<lparr>GP_NUM_CONS = nc, GP_INIT_DEPTH = 5, x_dim = 1, gp_cons = cs\<rparr>"

definition s2_tree :: "int \<Rightarrow> real GP_TREE" where
  "s2_tree nc =
     \<lparr>tree = [DIV, GP_NUM_FUNC + nc, SUB, GP_NUM_FUNC + nc, GP_NUM_FUNC + nc],
      len = 5, p = 0, mu = Some [0]\<rparr>"

section \<open>Configuration booleans (config.c)\<close>

text \<open>
  The parameter list \<^verbatim>\<open>head\<close> is a linked list of name/value pairs, newest first;
  \<^verbatim>\<open>getvalue\<close> returns the value of the first pair whose name compares equal, or NULL.
\<close>

type_synonym PARAM_LIST = "(string \<times> string) list"

fun getvalue :: "PARAM_LIST \<Rightarrow> string \<Rightarrow> string option" where
  "getvalue [] name = None"
| "getvalue ((n, v) # rest) name = (if name = n then Some v else getvalue rest name)"

text \<open>
  \<^verbatim>\<open>strncmp(s1, s2, n)\<close> of the C library on NUL-terminated strings (the lists hold the
  characters before the NUL): at most \<open>n\<close> characters are compared, the result is the
  difference of the first pair that differs.
\<close>

fun strncmp :: "string \<Rightarrow> string \<Rightarrow> nat \<Rightarrow> int" where
  "strncmp s1 s2 0 = 0"
| "strncmp [] [] (Suc n) = 0"
| "strncmp [] (b # bs) (Suc n) = - int (of_char b)"
| "strncmp (a # as) [] (Suc n) = int (of_char a)"
| "strncmp (a # as) (b # bs) (Suc n) =
     (if a = b then strncmp as bs n else int (of_char a) - int (of_char b))"

text \<open>
  One boolean key of \<^verbatim>\<open>constants_init\<close>: the field is set to false, then to true
  \<^verbatim>\<open>if(strncmp(getvalue(KEY), "true", 4) == 0)\<close>. A missing key hands NULL to
  \<^verbatim>\<open>strncmp\<close>.
\<close>

definition config_bool :: "PARAM_LIST \<Rightarrow> string \<Rightarrow> error + bool" where
  "config_bool params key =
     (case getvalue params key of
        None \<Rightarrow> Inl NullPointer
      | Some v \<Rightarrow> Inr (if strncmp v ''true'' 4 = 0 then True else False))"

record XCSF_bools =
  POP_INIT :: bool
  EA_SUBSUMPTION :: bool
  SET_SUBSUMPTION :: bool
  RESET_STATES :: bool
  COND_EVOLVE_WEIGHTS :: bool
  COND_EVOLVE_NEURONS :: bool
  COND_EVOLVE_FUNCTIONS :: bool
  PRED_EVOLVE_WEIGHTS :: bool
  PRED_EVOLVE_NEURONS :: bool
  PRED_EVOLVE_FUNCTIONS :: bool
  PRED_EVOLVE_ETA :: bool
  PRED_SGD_WEIGHTS :: bool
  PRED_RESET :: bool

text \<open>
  The boolean section of \<^verbatim>\<open>constants_init\<close>, in the order of the source. (The integer
  and real keys before it go through \<^verbatim>\<open>strtoimax\<close> and \<^verbatim>\<open>atof\<close> and set other fields.)
\<close>

definition constants_init_bools :: "PARAM_LIST \<Rightarrow> error + XCSF_bools" where
  "constants_init_bools params =
     bind_err (config_bool params ''POP_INIT'') (\<lambda>b1.
     bind_err (config_bool params ''EA_SUBSUMPTION'') (\<lambda>b2.
     bind_err (config_bool params ''SET_SUBSUMPTION'') (\<lambda>b3.
     bind_err (config_bool params ''RESET_STATES'') (\<lambda>b4.
     bind_err (config_bool params ''COND_EVOLVE_WEIGHTS'') (\<lambda>b5.
     bind_err (config_bool params ''COND_EVOLVE_NEURONS'') (\<lambda>b6.
     bind_err (config_bool params ''COND_EVOLVE_FUNCTIONS'') (\<lambda>b7.
     bind_err (config_bool params ''PRED_EVOLVE_WEIGHTS'') (\<lambda>b8.
     bind_err (config_bool params ''PRED_EVOLVE_NEURONS'') (\<lambda>b9.
     bind_err (config_bool params ''PRED_EVOLVE_FUNCTIONS'') (\<lambda>b10.
     bind_err (config_bool params ''PRED_EVOLVE_ETA'') (\<lambda>b11.
     bind_err (config_bool params ''PRED_SGD_WEIGHTS'') (\<lambda>b12.
     bind_err (config_bool params ''PRED_RESET'') (\<lambda>b13.
       Inr \<lparr>POP_INIT = b1, EA_SUBSUMPTION = b2, SET_SUBSUMPTION = b3, RESET_STATES = b4,
            COND_EVOLVE_WEIGHTS = b5, COND_EVOLVE_NEURONS = b6, COND_EVOLVE_FUNCTIONS = b7,
            PRED_EVOLVE_WEIGHTS = b8, PRED_EVOLVE_NEURONS = b9, PRED_EVOLVE_FUNCTIONS = b10,
            PRED_EVOLVE_ETA = b11, PRED_SGD_WEIGHTS = b12, PRED_RESET = b13\<rparr>)))))))))))))"

text \<open>The boolean keys with the field each one sets.\<close>

definition bool_keys :: "(string \<times> (XCSF_bools \<Rightarrow> bool)) list" where
  "bool_keys =
     [(''POP_INIT'', POP_INIT), (''EA_SUBSUMPTION'', EA_SUBSUMPTION),
      (''SET_SUBSUMPTION'', SET_SUBSUMPTION), (''RESET_STATES'', RESET_STATES),
      (''COND_EVOLVE_WEIGHTS'', COND_EVOLVE_WEIGHTS),
      (''COND_EVOLVE_NEURONS'', COND_EVOLVE_NEURONS),
      (''COND_EVOLVE_FUNCTIONS'', COND_EVOLVE_FUNCTIONS),
      (''PRED_EVOLVE_WEIGHTS'', PRED_EVOLVE_WEIGHTS),
      (''PRED_EVOLVE_NEURONS'', PRED_EVOLVE_NEURONS),
      (''PRED_EVOLVE_FUNCTIONS'', PRED_EVOLVE_FUNCTIONS),
      (''PRED_EVOLVE_ETA'', PRED_EVOLVE_ETA), (''PRED_SGD_WEIGHTS'', PRED_SGD_WEIGHTS),
      (''PRED_RESET'', PRED_RESET)]"

text \<open>
  A parameter list with every boolean key, as the lines
  \<^verbatim>\<open>POP_INIT=true #seed the population\<close> (the comment is cut at \<^verbatim>\<open>#\<close>, the blank before
  it stays in the value), \<^verbatim>\<open>EA_SUBSUMPTION=true\<close>, \<^verbatim>\<open>SET_SUBSUMPTION=True\<close> and
  \<^verbatim>\<open>KEY=false\<close> for the others leave it.
\<close>

definition example_params :: PARAM_LIST where
  "example_params =
     [(''PRED_RESET'', ''false''), (''PRED_SGD_WEIGHTS'', ''false''),
      (''PRED_EVOLVE_ETA'', ''false''), (''PRED_EVOLVE_FUNCTIONS'', ''false''),
      (''PRED_EVOLVE_NEURONS'', ''false''), (''PRED_EVOLVE_WEIGHTS'', ''false''),
      (''COND_EVOLVE_FUNCTIONS'', ''false''), (''COND_EVOLVE_NEURONS'', ''false''),
      (''COND_EVOLVE_WEIGHTS'', ''false''), (''RESET_STATES'', ''false''),
      (''SET_SUBSUMPTION'', ''True''), (''EA_SUBSUMPTION'', ''true''),
      (''POP_INIT'', ''true '')]"

section \<open>Layer arguments (neural_layer_args.c)\<close>

text \<open>
  Modelled from the spec: the layer kind tags of neural_layer.h (absent from the sources),
  one constructor for each kind the spec lists: connected, convolutional, recurrent, LSTM,
  softmax, dropout, noise, avgpool, maxpool, upsample.
\<close>

datatype layer_type =
    CONNECTED | DROPOUT | NOISE | SOFTMAX | RECURRENT | LSTM
  | MAXPOOL | CONVOLUTIONAL | AVGPOOL | UPSAMPLE

text \<open>
  The fields of \<^verbatim>\<open>struct ArgsLayer\<close> that validation reads or writes. The chain linked by
  \<^verbatim>\<open>next\<close> and ended by NULL is a list of nodes, first node first.
\<close>

record ArgsLayer =
  type :: layer_type
  n_inputs :: int
  n_init :: int
  n_max :: int
  max_neuron_grow :: int
  height :: int
  width :: int
  channels :: int
  evolve_neurons :: bool

text \<open>
  The product of two C \<^verbatim>\<open>int\<close>s is formed in 32 bits. A product that leaves the range of
  \<^verbatim>\<open>int\<close> is undefined in C; the compiled code keeps its low 32 bits as a signed number,
  and so does \<open>int_mul\<close>.
\<close>

definition int_mul :: "int \<Rightarrow> int \<Rightarrow> int" where
  "int_mul a b = sint (word_of_int a * word_of_int b :: 32 word)"

text \<open>
  \<^verbatim>\<open>layer_args_validate_inputs\<close>. The predicate \<^verbatim>\<open>layer_receives_images\<close> is declared
  outside the sources and is the parameter \<open>receives_images\<close>.
\<close>

definition layer_args_validate_inputs ::
  "(layer_type \<Rightarrow> bool) \<Rightarrow> ArgsLayer \<Rightarrow> error + ArgsLayer" where
  "layer_args_validate_inputs receives_images arg =
     (let arg1 =
            (if type arg = DROPOUT \<or> type arg = NOISE then
               (if n_inputs arg < 1 then
                  arg\<lparr>n_inputs := int_mul (int_mul (channels arg) (height arg)) (width arg)\<rparr>
                else if channels arg < 1 \<or> height arg < 1 \<or> width arg < 1 then
                  arg\<lparr>channels := 1, height := 1, width := n_inputs arg\<rparr>
                else arg)
             else arg)
      in
      if receives_images (type arg1) then
        (if channels arg1 < 1 then Inl InputChannels
         else if height arg1 < 1 then Inl InputHeight
         else if width arg1 < 1 then Inl InputWidth
         else Inr arg1)
      else if n_inputs arg1 < 1 then Inl NumInputs
      else Inr arg1)"

text \<open>
  The \<^verbatim>\<open>do ... while (arg != NULL)\<close> loop of \<^verbatim>\<open>layer_args_validate\<close>, entered with a
  non-NULL node: one step for each node of the chain.
\<close>

fun layer_args_validate_loop :: "ArgsLayer list \<Rightarrow> error + ArgsLayer list" where
  "layer_args_validate_loop [] = Inr []"
| "layer_args_validate_loop (arg # rest) =
     (if evolve_neurons arg \<and> max_neuron_grow arg < 1 then Inl MaxNeuronGrow
      else
        let arg1 = (if n_max arg < n_init arg then arg\<lparr>n_max := n_init arg\<rparr> else arg)
        in (case layer_args_validate_loop rest of
              Inl e \<Rightarrow> Inl e
            | Inr rest1 \<Rightarrow> Inr (arg1 # rest1)))"

definition layer_args_validate ::
  "(layer_type \<Rightarrow> bool) \<Rightarrow> ArgsLayer list \<Rightarrow> error + ArgsLayer list" where
  "layer_args_validate receives_images args =
     (case args of
        [] \<Rightarrow> Inl EmptyArgs
      | arg # rest \<Rightarrow>
          (case layer_args_validate_inputs receives_images arg of
             Inl e \<Rightarrow> Inl e
           | Inr arg1 \<Rightarrow> layer_args_validate_loop (arg1 # rest)))"

text \<open>
  An instance of the parameter to run the examples with: the kinds that take image inputs
  are convolutional, maxpool, avgpool and upsample.
\<close>

definition layer_receives_images :: "layer_type \<Rightarrow> bool" where
  "layer_receives_images t = (t = CONVOLUTIONAL \<or> t = MAXPOOL \<or> t = AVGPOOL \<or> t = UPSAMPLE)"

definition example_args :: "ArgsLayer list" where
  "example_args =
     [\<lparr>type = CONNECTED, n_inputs = 4, n_init = 10, n_max = 3, max_neuron_grow = 1,
       height = 0, width = 0, channels = 0, evolve_neurons = True\<rparr>,
      \<lparr>type = CONNECTED, n_inputs = 10, n_init = 1, n_max = 0, max_neuron_grow = 0,
       height = 0, width = 0, channels = 0, evolve_neurons = False\<rparr>]"

definition example_args_bad :: "ArgsLayer list" where
  "example_args_bad =
     [\<lparr>type = CONNECTED, n_inputs = 4, n_init = 10, n_max = 3, max_neuron_grow = 1,
       height = 0, width = 0, channels = 0, evolve_neurons = True\<rparr>,
      \<lparr>type = CONNECTED, n_inputs = 10, n_init = 1, n_max = 0, max_neuron_grow = 0,
       height = 0, width = 0, channels = 0, evolve_neurons = True\<rparr>]"

text \<open>A dropout node whose image size does not fit an \<^verbatim>\<open>int\<close>.\<close>

definition example_args_wide :: ArgsLayer where
  "example_args_wide =
     \<lparr>type = DROPOUT, n_inputs = 0, n_init = 1, n_max = 1, max_neuron_grow = 0,
      height = 46341, width = 46341, channels = 1, evolve_neurons = False\<rparr>"

section \<open>Neural networks (neural.c)\<close>

text \<open>
  Pointers are addresses; NULL is \<open>None\<close>. The fields of \<^verbatim>\<open>struct Layer\<close> that neural.c
  reads when it inserts or removes a layer: the sizes and the pointer to the output
  buffer.
\<close>

type_synonym addr = nat

record Layer =
  layer_type :: int
  n_inputs :: int
  n_outputs :: int
  "output" :: "addr option"

text \<open>
  A node of the doubly linked list. The list is walked from \<open>tail\<close> (the first,
  input-facing layer) along \<open>prev\<close> to \<open>head\<close> (the last, output-facing layer), and from
  \<open>head\<close> along \<open>next\<close> back to \<open>tail\<close>. A node owns its layer: the model keeps the
  \<open>Layer\<close> value where C keeps the pointer (insert and remove write to no layer).
\<close>

record Llist =
  layer :: Layer
  prev :: "addr option"
  "next" :: "addr option"

record Net =
  n_layers :: int
  n_inputs :: int
  n_outputs :: int
  "output" :: "addr option"
  head :: "addr option"
  tail :: "addr option"

text \<open>
  The store of list nodes: \<open>cells\<close> maps the address of every allocated node to its
  contents, \<open>fresh\<close> is the address the next \<^verbatim>\<open>malloc\<close> returns (allocation is assumed to
  succeed, as the code assumes). Reading through NULL is \<open>NullPointer\<close>, through an
  address that holds no node \<open>InvalidPointer\<close>.
\<close>

record heap =
  cells :: "addr \<Rightarrow> Llist option"
  fresh :: addr

definition heap_empty :: heap where
  "heap_empty = \<lparr>cells = (\<lambda>a. None), fresh = 0\<rparr>"

definition malloc :: "heap \<Rightarrow> addr \<times> heap" where
  "malloc h = (fresh h, h\<lparr>fresh := fresh h + 1\<rparr>)"

definition store :: "heap \<Rightarrow> addr \<Rightarrow> Llist \<Rightarrow> heap" where
  "store h a nd = h\<lparr>cells := (cells h)(a \<mapsto> nd)\<rparr>"

definition free :: "heap \<Rightarrow> addr \<Rightarrow> heap" where
  "free h a = h\<lparr>cells := (cells h)(a := None)\<rparr>"

definition deref :: "heap \<Rightarrow> addr option \<Rightarrow> error + Llist" where
  "deref h ptr =
     (case ptr of
        None \<Rightarrow> Inl NullPointer
      | Some a \<Rightarrow> (case cells h a of None \<Rightarrow> Inl InvalidPointer | Some nd \<Rightarrow> Inr nd))"

definition neural_init :: Net where
  "neural_init =
     \<lparr>n_layers = 0, n_inputs = 0, n_outputs = 0, output = None, head = None, tail = None\<rparr>"

text \<open>
  The loop \<^verbatim>\<open>for (i = 0; i < pos && iter != NULL; ++i) iter = iter->prev;\<close> with \<open>n\<close>
  iterations left.
\<close>

fun walk_prev :: "heap \<Rightarrow> nat \<Rightarrow> addr option \<Rightarrow> error + addr option" where
  "walk_prev h 0 iter = Inr iter"
| "walk_prev h (Suc n) None = Inr None"
| "walk_prev h (Suc n) (Some a) =
     (case cells h a of
        None \<Rightarrow> Inl InvalidPointer
      | Some nd \<Rightarrow> walk_prev h n (prev nd))"

text \<open>
  \<^verbatim>\<open>neural_insert\<close>. In the branch for a non-NULL \<open>iter\<close> the statements are kept in the
  order of the source: \<^verbatim>\<open>new->next = iter->next; iter->next = new;\<close> and only then the
  test \<^verbatim>\<open>iter->next == NULL\<close>, which reads the field just written.
\<close>

definition neural_insert :: "heap \<Rightarrow> Net \<Rightarrow> Layer \<Rightarrow> int \<Rightarrow> error + (heap \<times> Net)" where
  "neural_insert h net l pos =
     (if head net = None \<or> tail net = None then
        (let (a, h1) = malloc h;
             h2 = store h1 a \<lparr>layer = l, prev = None, next = None\<rparr>
         in Inr (h2, net\<lparr>head := Some a, tail := Some a,
                          n_inputs := Layer.n_inputs l, n_outputs := Layer.n_outputs l,
                          output := Layer.output l, n_layers := n_layers net + 1\<rparr>))
      else
        bind_err (walk_prev h (nat pos) (tail net)) (\<lambda>iter.
          let (new, h1) = malloc h in
          (case iter of
             None \<Rightarrow>
               bind_err (deref h1 (head net)) (\<lambda>head_nd.
                 let h2 = store h1 new \<lparr>layer = l, prev = iter, next = head net\<rparr>;
                     h3 = store h2 (the (head net)) (head_nd\<lparr>prev := Some new\<rparr>)
                 in Inr (h3, net\<lparr>head := Some new, n_outputs := Layer.n_outputs l,
                                  output := Layer.output l, n_layers := n_layers net + 1\<rparr>))
           | Some it \<Rightarrow>
               bind_err (deref h1 iter) (\<lambda>iter_nd.
                 let h2 = store h1 new \<lparr>layer = l, prev = iter, next = next iter_nd\<rparr>;
                     h3 = store h2 it (iter_nd\<lparr>next := Some new\<rparr>)
                 in
                 bind_err (deref h3 iter) (\<lambda>iter_nd1.
                   if next iter_nd1 = None then
                     Inr (h3, net\<lparr>tail := Some new, n_inputs := Layer.n_inputs l,
                                   n_layers := n_layers net + 1\<rparr>)
                   else
                     bind_err (deref h3 (Some new)) (\<lambda>new_nd.
                     bind_err (deref h3 (next new_nd)) (\<lambda>below_nd.
                       let h4 = store h3 (the (next new_nd)) (below_nd\<lparr>prev := Some new\<rparr>)
                       in Inr (h4, net\<lparr>n_layers := n_layers net + 1\<rparr>))))))))"

text \<open>
  \<^verbatim>\<open>neural_remove\<close>: the three \<^verbatim>\<open>if\<close> blocks (head, tail, middle) run one after the
  other, each reading the node \<open>iter\<close> again; then the node is freed.
\<close>

definition neural_remove :: "heap \<Rightarrow> Net \<Rightarrow> int \<Rightarrow> error + (heap \<times> Net)" where
  "neural_remove h net pos =
     bind_err (walk_prev h (nat pos) (tail net)) (\<lambda>iter.
       (case iter of
          None \<Rightarrow> Inl LayerNotFound
        | Some it \<Rightarrow>
            bind_err (deref h iter) (\<lambda>nd0.
              if next nd0 = None \<and> prev nd0 = None then Inl OnlyLayer
              else
                bind_err
                  (if prev nd0 = None then
                     (let net1 = net\<lparr>head := next nd0\<rparr> in
                      bind_err
                        (if next nd0 \<noteq> None then
                           bind_err (deref h (next nd0)) (\<lambda>below.
                             Inr (store h (the (next nd0)) (below\<lparr>prev := None\<rparr>)))
                         else Inr h) (\<lambda>h1.
                      bind_err (deref h1 (head net1)) (\<lambda>head_nd.
                        Inr (h1, net1\<lparr>output := Layer.output (layer head_nd),
                                       n_outputs := Layer.n_outputs (layer head_nd)\<rparr>))))
                   else Inr (h, net)) (\<lambda>(h1, net1).
                bind_err (deref h1 iter) (\<lambda>nd1.
                bind_err
                  (if next nd1 = None then
                     (let net2 = net1\<lparr>tail := prev nd1\<rparr> in
                      if prev nd1 \<noteq> None then
                        bind_err (deref h1 (prev nd1)) (\<lambda>above.
                          Inr (store h1 (the (prev nd1)) (above\<lparr>next := None\<rparr>), net2))
                      else Inr (h1, net2))
                   else Inr (h1, net1)) (\<lambda>(h2, net2).
                bind_err (deref h2 iter) (\<lambda>nd2.
                bind_err
                  (if prev nd2 \<noteq> None \<and> next nd2 \<noteq> None then
                     bind_err (deref h2 (next nd2)) (\<lambda>below.
                       let h3 = store h2 (the (next nd2)) (below\<lparr>prev := prev nd2\<rparr>) in
                       bind_err (deref h3 iter) (\<lambda>nd3.
                       bind_err (deref h3 (prev nd3)) (\<lambda>above.
                         Inr (store h3 (the (prev nd3)) (above\<lparr>next := next nd3\<rparr>)))))
                   else Inr h2) (\<lambda>h3.
                  Inr (free h3 it, net2\<lparr>n_layers := n_layers net2 - 1\<rparr>)))))))))"

definition neural_push :: "heap \<Rightarrow> Net \<Rightarrow> Layer \<Rightarrow> error + (heap \<times> Net)" where
  "neural_push h net l = neural_insert h net l (n_layers net)"

definition neural_pop :: "heap \<Rightarrow> Net \<Rightarrow> error + (heap \<times> Net)" where
  "neural_pop h net = neural_remove h net (n_layers net - 1)"

text \<open>
  The cached fields agree with the list: \<open>n_inputs\<close> is the tail layer's, \<open>n_outputs\<close> and
  \<open>output\<close> are the head layer's.
\<close>

definition cache_ok :: "heap \<Rightarrow> Net \<Rightarrow> bool" where
  "cache_ok h net =
     (case (deref h (tail net), deref h (head net)) of
        (Inr tail_nd, Inr head_nd) \<Rightarrow>
          Net.n_inputs net = Layer.n_inputs (layer tail_nd) \<and>
          Net.n_outputs net = Layer.n_outputs (layer head_nd) \<and>
          Net.output net = Layer.output (layer head_nd)
      | _ \<Rightarrow> False)"

text \<open>
  \<open>net_chain h net as\<close>: the nodes of \<open>net\<close> are the distinct allocated addresses \<open>as\<close>,
  tail first and head last, linked in both directions, and \<open>n_layers\<close> counts them.
  \<open>links h lo as\<close> checks the links of \<open>as\<close>, where \<open>lo\<close> is the \<open>next\<close> pointer of the
  first node.
\<close>

fun links :: "heap \<Rightarrow> addr option \<Rightarrow> addr list \<Rightarrow> bool" where
  "links h lo [] = True"
| "links h lo (a # as) =
     (case cells h a of
        None \<Rightarrow> False
      | Some nd \<Rightarrow>
          next nd = lo \<and> prev nd = (case as of [] \<Rightarrow> None | b # bs \<Rightarrow> Some b) \<and>
          links h (Some a) as)"

definition net_chain :: "heap \<Rightarrow> Net \<Rightarrow> addr list \<Rightarrow> bool" where
  "net_chain h net as =
     (distinct as \<and> links h None as \<and> list_all (\<lambda>a. a < fresh h) as \<and>
      tail net = (case as of [] \<Rightarrow> None | a # bs \<Rightarrow> Some a) \<and>
      head net = (if as = [] then None else Some (last as)) \<and>
      n_layers net = int (length as))"

text \<open>Two layers whose sizes differ, and the nets built from them.\<close>

definition layer_a :: Layer where
  "layer_a = \<lparr>layer_type = 0, n_inputs = 2, n_outputs = 3, output = Some 100\<rparr>"

definition layer_b :: Layer where
  "layer_b = \<lparr>layer_type = 0, n_inputs = 3, n_outputs = 1, output = Some 200\<rparr>"

definition layer_c :: Layer where
  "layer_c = \<lparr>layer_type = 0, n_inputs = 1, n_outputs = 5, output = Some 300\<rparr>"

definition heap_one :: heap where
  "heap_one =
     \<lparr>cells = (\<lambda>a. None)(0 \<mapsto> \<lparr>layer = layer_a, prev = None, next = None\<rparr>), fresh = 1\<rparr>"

definition net_one :: Net where
  "net_one =
     \<lparr>n_layers = 1, n_inputs = 2, n_outputs = 3, output = Some 100,
      head = Some 0, tail = Some 0\<rparr>"

definition heap_two :: heap where
  "heap_two =
     \<lparr>cells = (\<lambda>a. None)(0 \<mapsto> \<lparr>layer = layer_a, prev = Some 1, next = None\<rparr>,
                          1 \<mapsto> \<lparr>layer = layer_b, prev = None, next = Some 0\<rparr>),
      fresh = 2\<rparr>"

definition net_two :: Net where
  "net_two =
     \<lparr>n_layers = 2, n_inputs = 2, n_outputs = 1, output = Some 200,
      head = Some 1, tail = Some 0\<rparr>"

text \<open>The net of two layers after its tail (position 0) was removed.\<close>

definition heap_removed :: heap where
  "heap_removed =
     \<lparr>cells = (\<lambda>a. None)(1 \<mapsto> \<lparr>layer = layer_b, prev = None, next = None\<rparr>), fresh = 2\<rparr>"

definition net_removed :: Net where
  "net_removed =
     \<lparr>n_layers = 1, n_inputs = 2, n_outputs = 1, output = Some 200,
      head = Some 1, tail = Some 1\<rparr>"

section \<open>Random growth, crossover and mutation of GP trees (gp.c)\<close>

text \<open>
  The random-number and self-adaptation helpers of utils.h and sam.h are declared outside
  the sources. They are the fields of the parameter \<open>utils\<close>, each taking and returning the
  generator state \<open>'r\<close>: \<^verbatim>\<open>irand_uniform(min, max)\<close>, \<^verbatim>\<open>rand_uniform(min, max)\<close> (called
  with the literals 0 and 1), \<^verbatim>\<open>sam_init(mu, N_MU, MU_TYPE)\<close> (the rates it stores) and
  \<^verbatim>\<open>sam_adapt(mu, N_MU, MU_TYPE)\<close> (the rates it leaves).
\<close>

record ('r, 'd) utils =
  irand_uniform :: "int \<Rightarrow> int \<Rightarrow> 'r \<Rightarrow> int \<times> 'r"
  rand_uniform :: "int \<Rightarrow> int \<Rightarrow> 'r \<Rightarrow> 'd \<times> 'r"
  sam_init :: "'r \<Rightarrow> 'd list \<times> 'r"
  sam_adapt :: "'d list \<Rightarrow> 'r \<Rightarrow> 'd list \<times> 'r"

text \<open>
  An instance of the parameter to run the examples with. Its state is the list of the raw
  draws to come; \<open>irand_uniform\<close> maps the next draw into \<open>[min, max)\<close>, \<open>rand_uniform\<close>
  maps it to a multiple of 1/100 in \<open>[min, max)\<close>, the initial rate is 1/2 and
  \<open>sam_adapt\<close> leaves the rates as they are.
\<close>

definition script_utils :: "(int list, real) utils" where
  "script_utils =
     \<lparr>irand_uniform = (\<lambda>lo hi rng.
        (if lo < hi then lo + (case rng of [] \<Rightarrow> 0 | r # rs \<Rightarrow> r) mod (hi - lo) else lo,
         tl rng)),
      rand_uniform = (\<lambda>lo hi rng.
        (real_of_int lo +
           real_of_int (hi - lo) * real_of_int ((case rng of [] \<Rightarrow> 0 | r # rs \<Rightarrow> r) mod 100) / 100,
         tl rng)),
      sam_init = (\<lambda>rng. ([1 / 2], rng)),
      sam_adapt = (\<lambda>m rng. (m, rng))\<rparr>"

subsection \<open>tree_grow and tree_rand\<close>

text \<open>
  \<^verbatim>\<open>tree_grow(xcsf, buffer, p, max, depth)\<close>. The array \<^verbatim>\<open>int buffer[GP_MAX_LEN]\<close> is a
  function from the index with the bound \<open>GP_MAX_LEN\<close> checked at each write. The result
  is the returned position (\<open>-1\<close> when the length is exceeded) with the buffer and the
  generator state.
\<close>

function tree_grow ::
  "('r, 'd) utils \<Rightarrow> 'd XCSF \<Rightarrow> (nat \<Rightarrow> int) \<Rightarrow> int \<Rightarrow> int \<Rightarrow> int \<Rightarrow> 'r \<Rightarrow>
     error + (int \<times> (nat \<Rightarrow> int) \<times> 'r)" where
  "tree_grow u xcsf buffer pos mx depth rng =
     (case irand_uniform u 0 2 rng of (prim0, rng1) \<Rightarrow>
        if pos \<ge> mx then Inr (- 1, buffer, rng1)
        else if (if pos = 0 then 1 else prim0) = 0 \<or> depth = 0 then
          (case irand_uniform u GP_NUM_FUNC (GP_NUM_FUNC + GP_NUM_CONS xcsf + x_dim xcsf) rng1 of
             (prim, rng2) \<Rightarrow>
               if pos < 0 \<or> GP_MAX_LEN \<le> pos then Inl OutOfBounds
               else Inr (pos + 1, buffer(nat pos := prim), rng2))
        else
          (case irand_uniform u 0 GP_NUM_FUNC rng1 of
             (prim, rng2) \<Rightarrow>
               if prim = ADD \<or> prim = SUB \<or> prim = MUL \<or> prim = DIV then
                 (if pos < 0 \<or> GP_MAX_LEN \<le> pos then Inl OutOfBounds
                  else
                    (case tree_grow u xcsf (buffer(nat pos := prim)) (pos + 1) mx (depth - 1) rng2 of
                       Inl e \<Rightarrow> Inl e
                     | Inr (one_child, buffer1, rng3) \<Rightarrow>
                         if one_child < 0 then Inr (- 1, buffer1, rng3)
                         else tree_grow u xcsf buffer1 one_child mx (depth - 1) rng3))
               else Inl (InvalidFunction prim)))"
  by pat_completeness auto

lemma tree_grow_dom_step:
  "tree_grow_dom (u, xcsf, buffer, pos, mx, depth, rng) \<Longrightarrow>
   tree_grow u xcsf buffer pos mx depth rng = Inr (n, buffer', rng') \<Longrightarrow>
     n = - 1 \<or> pos < n"
proof (induction u xcsf buffer pos mx depth rng arbitrary: n buffer' rng'
       rule: tree_grow.pinduct)
  case (1 u xcsf buffer pos mx depth rng)
  obtain prim0 rng1 where d0: "irand_uniform u 0 2 rng = (prim0, rng1)"
    by (cases "irand_uniform u 0 2 rng")
  show ?case
  proof (cases "pos \<ge> mx \<or> (if pos = 0 then 1 else prim0) = 0 \<or> depth = 0")
    case True
    with "1.prems" d0 show ?thesis
      by (auto simp: tree_grow.psimps[OF "1.hyps"] split: if_splits prod.splits)
  next
    case False
    obtain prim rng2 where d1: "irand_uniform u 0 GP_NUM_FUNC rng1 = (prim, rng2)"
      by (cases "irand_uniform u 0 GP_NUM_FUNC rng1")
    from "1.prems" d0 d1 False obtain c b1 r3 where
      fn: "prim = ADD \<or> prim = SUB \<or> prim = MUL \<or> prim = DIV" and
      inb: "\<not> (pos < 0 \<or> GP_MAX_LEN \<le> pos)" and
      e1: "tree_grow u xcsf (buffer(nat pos := prim)) (pos + 1) mx (depth - 1) rng2
             = Inr (c, b1, r3)" and
      e2: "c < 0 \<and> n = - 1 \<or> \<not> c < 0 \<and> tree_grow u xcsf b1 c mx (depth - 1) r3 = Inr (n, buffer', rng')"
      by (auto simp: tree_grow.psimps[OF "1.hyps"] split: if_splits sum.splits prod.splits)
    have nge: "\<not> mx \<le> pos" and nterm: "\<not> ((if pos = 0 then 1 else prim0) = 0 \<or> depth = 0)"
      using False by auto
    have s1: "c = - 1 \<or> pos + 1 < c"
      using "1.IH"(1)[OF d0[symmetric] nge nterm d1[symmetric] fn inb e1] .
    from e2 show ?thesis
    proof
      assume "c < 0 \<and> n = - 1"
      then show ?thesis by simp
    next
      assume a: "\<not> c < 0 \<and> tree_grow u xcsf b1 c mx (depth - 1) r3 = Inr (n, buffer', rng')"
      then have nneg: "\<not> c < 0" and e2': "tree_grow u xcsf b1 c mx (depth - 1) r3 = Inr (n, buffer', rng')"
        by simp_all
      have "n = - 1 \<or> c < n"
        using "1.IH"(2)[OF d0[symmetric] nge nterm d1[symmetric] fn inb
                           e1 refl refl nneg e2'] .
      with s1 nneg show ?thesis by auto
    qed
  qed
qed

termination tree_grow
proof (relation "measure (\<lambda>(u, xcsf, buffer, pos, mx, depth, rng). nat (mx - pos))",
       goal_cases)
  case 1
  show ?case by simp
next
  case 2
  then show ?case by simp
next
  case (3 u xcsf buffer pos mx depth rng prim0 rng1 prim rng2 r one_child rest buffer1 rng3)
  then show ?case
    using tree_grow_dom_step[of u xcsf "buffer(nat pos := prim)" "pos + 1" mx "depth - 1" rng2
                                one_child buffer1 rng3]
    by auto
qed

declare tree_grow.simps [simp del]

text \<open>
  The loop \<^verbatim>\<open>do { gp->len = tree_grow(xcsf, buffer, 0, GP_MAX_LEN, GP_INIT_DEPTH); }
  while (gp->len < 0);\<close> of \<^verbatim>\<open>tree_rand\<close>. It has no bound on its iterations: a run that
  never leaves it is \<open>None\<close>.
\<close>

partial_function (option) tree_rand_loop ::
  "('r, 'd) utils \<Rightarrow> 'd XCSF \<Rightarrow> (nat \<Rightarrow> int) \<Rightarrow> 'r \<Rightarrow>
     (error + (int \<times> (nat \<Rightarrow> int) \<times> 'r)) option" where
  "tree_rand_loop u xcsf buffer rng =
     (case tree_grow u xcsf buffer 0 GP_MAX_LEN (GP_INIT_DEPTH xcsf) rng of
        Inl e \<Rightarrow> Some (Inl e)
      | Inr (n, buffer1, rng1) \<Rightarrow>
          if n < 0 then tree_rand_loop u xcsf buffer1 rng1
          else Some (Inr (n, buffer1, rng1)))"

text \<open>
  \<^verbatim>\<open>tree_rand\<close>: \<open>buffer\<close> is the local array as it is found (its contents are not
  initialised); the first \<open>len\<close> entries are copied to the new block \<open>tree\<close>, and \<open>mu\<close> is
  allocated and initialised.
\<close>

definition tree_rand ::
  "('r, 'd) utils \<Rightarrow> 'd XCSF \<Rightarrow> 'd GP_TREE \<Rightarrow> (nat \<Rightarrow> int) \<Rightarrow> 'r \<Rightarrow>
     (error + ('d GP_TREE \<times> 'r)) option" where
  "tree_rand u xcsf gp buffer rng =
     (case tree_rand_loop u xcsf buffer rng of
        None \<Rightarrow> None
      | Some (Inl e) \<Rightarrow> Some (Inl e)
      | Some (Inr (n, buffer1, rng1)) \<Rightarrow>
          (case sam_init u rng1 of
             (m, rng2) \<Rightarrow>
               Some (Inr (gp\<lparr>len := n, tree := map buffer1 [0..<nat n], mu := Some m\<rparr>, rng2))))"

subsection \<open>tree_free, tree_crossover\<close>

text \<open>
  \<^verbatim>\<open>tree_free\<close> hands both pointers of the tree to \<^verbatim>\<open>free\<close>. Afterwards \<open>tree\<close> and
  \<open>mu\<close> point to no allocated block (the structure keeps the stale addresses). A \<open>mu\<close>
  that points to no allocated block on entry, because it was freed before or never
  allocated, makes \<^verbatim>\<open>free(gp->mu)\<close> undefined behaviour: \<open>InvalidPointer\<close>.
\<close>

definition tree_free :: "'d GP_TREE \<Rightarrow> error + 'd GP_TREE" where
  "tree_free gp =
     (case mu gp of
        None \<Rightarrow> Inl InvalidPointer
      | Some m \<Rightarrow> Inr (gp\<lparr>tree := [], mu := None\<rparr>))"

text \<open>
  The source range of a \<^verbatim>\<open>memcpy\<close> of \<open>n\<close> ints from \<^verbatim>\<open>&src[off]\<close>; a range that leaves
  the block is \<open>OutOfBounds\<close>.
\<close>

definition copy_ints :: "int list \<Rightarrow> int \<Rightarrow> int \<Rightarrow> error + int list" where
  "copy_ints src off n =
     (if off < 0 \<or> n < 0 \<or> int (length src) < off + n then Inl OutOfBounds
      else Inr (take (nat n) (drop (nat off) src)))"

text \<open>
  \<^verbatim>\<open>tree_crossover\<close>. The two new code arrays are filled by three \<^verbatim>\<open>memcpy\<close> each,
  then both parents are freed with \<^verbatim>\<open>tree_free\<close> and only their \<open>tree\<close> pointers are set
  again: \<open>mu\<close> of both stays freed. The lengths are the results of \<^verbatim>\<open>tree_traverse\<close>
  from position 0; \<open>GP_MAX_LEN\<close> is not read.
\<close>

definition tree_crossover ::
  "('r, 'd) utils \<Rightarrow> 'd XCSF \<Rightarrow> 'd GP_TREE \<Rightarrow> 'd GP_TREE \<Rightarrow> 'r \<Rightarrow>
     error + ('d GP_TREE \<times> 'd GP_TREE \<times> 'r)" where
  "tree_crossover u xcsf p1 p2 rng =
     (let len1 = len p1;
          len2 = len p2;
          start1 = fst (irand_uniform u 0 len1 rng);
          rng1 = snd (irand_uniform u 0 len1 rng)
      in
      if start1 < 0 then Inl OutOfBounds
      else
        bind_err (tree_traverse (tree p1) (nat start1)) (\<lambda>e1.
          (let end1 = int e1;
               start2 = fst (irand_uniform u 0 len2 rng1);
               rng2 = snd (irand_uniform u 0 len2 rng1)
           in
           if start2 < 0 then Inl OutOfBounds
           else
             bind_err (tree_traverse (tree p2) (nat start2)) (\<lambda>e2.
               (let end2 = int e2 in
                bind_err (copy_ints (tree p1) 0 start1) (\<lambda>a1.
                bind_err (copy_ints (tree p2) start2 (end2 - start2)) (\<lambda>b1.
                bind_err (copy_ints (tree p1) end1 (len1 - end1)) (\<lambda>c1.
                bind_err (copy_ints (tree p2) 0 start2) (\<lambda>a2.
                bind_err (copy_ints (tree p1) start1 (end1 - start1)) (\<lambda>b2.
                bind_err (copy_ints (tree p2) end2 (len2 - end2)) (\<lambda>c2.
                bind_err (tree_free p1) (\<lambda>f1.
                bind_err (tree_free p2) (\<lambda>f2.
                  (let q1 = f1\<lparr>tree := a1 @ b1 @ c1\<rparr>;
                       q2 = f2\<lparr>tree := a2 @ b2 @ c2\<rparr>
                   in
                   bind_err (tree_traverse (tree q1) 0) (\<lambda>l1.
                   bind_err (tree_traverse (tree q2) 0) (\<lambda>l2.
                     Inr (q1\<lparr>len := int l1\<rparr>, q2\<lparr>len := int l2\<rparr>, rng2)))))))))))))))))"

text \<open>
  A tree as gp.c keeps it: the block \<open>tree\<close> holds \<open>len\<close> codes and the traversal from
  position 0 ends exactly at \<open>len\<close>.
\<close>

definition valid_tree :: "'d GP_TREE \<Rightarrow> bool" where
  "valid_tree gp =
     (len gp = int (length (tree gp)) \<and> tree_traverse (tree gp) 0 = Inr (length (tree gp)))"

subsection \<open>tree_mutate\<close>

text \<open>
  The loop \<^verbatim>\<open>for (i = 0; i < gp->len; ++i)\<close> of \<^verbatim>\<open>tree_mutate\<close> with \<open>k\<close> iterations
  left; \<open>m\<close> is the block \<open>gp->mu\<close> after \<^verbatim>\<open>sam_adapt\<close>.
\<close>

fun tree_mutate_loop ::
  "('r, 'd) utils \<Rightarrow> 'd fp_ops \<Rightarrow> 'd list \<Rightarrow> int \<Rightarrow> nat \<Rightarrow> nat \<Rightarrow> int list \<Rightarrow> bool \<Rightarrow> 'r \<Rightarrow>
     error + (int list \<times> bool \<times> 'r)" where
  "tree_mutate_loop u ops m terminal_max 0 i t changed rng = Inr (t, changed, rng)"
| "tree_mutate_loop u ops m terminal_max (Suc k) i t changed rng =
     (case rand_uniform u 0 1 rng of (d, rng1) \<Rightarrow>
        if m = [] then Inl OutOfBounds
        else if fp_less ops d (m ! 0) then
          (if length t \<le> i then Inl OutOfBounds
           else if t ! i \<ge> GP_NUM_FUNC then
             (case irand_uniform u GP_NUM_FUNC terminal_max rng1 of (v, rng2) \<Rightarrow>
                tree_mutate_loop u ops m terminal_max k (i + 1) (t[i := v]) True rng2)
           else
             (case irand_uniform u 0 GP_NUM_FUNC rng1 of (v, rng2) \<Rightarrow>
                tree_mutate_loop u ops m terminal_max k (i + 1) (t[i := v]) True rng2))
        else tree_mutate_loop u ops m terminal_max k (i + 1) t changed rng1)"

definition tree_mutate ::
  "('r, 'd) utils \<Rightarrow> 'd fp_ops \<Rightarrow> 'd XCSF \<Rightarrow> 'd GP_TREE \<Rightarrow> 'r \<Rightarrow>
     error + (bool \<times> 'd GP_TREE \<times> 'r)" where
  "tree_mutate u ops xcsf gp rng =
     (case mu gp of
        None \<Rightarrow> Inl InvalidPointer
      | Some m0 \<Rightarrow>
          (case sam_adapt u m0 rng of (m, rng1) \<Rightarrow>
             bind_err
               (tree_mutate_loop u ops m (GP_NUM_FUNC + GP_NUM_CONS xcsf + x_dim xcsf)
                  (nat (len gp)) 0 (tree gp) False rng1)
               (\<lambda>(t, changed, rng2). Inr (changed, gp\<lparr>tree := t, mu := Some m\<rparr>, rng2))))"

text \<open>Trees and parameters for the examples.\<close>

definition example_xcsf :: "int \<Rightarrow> real XCSF" where
  "example_xcsf depth = \<lparr>GP_NUM_CONS = 1, GP_INIT_DEPTH = depth, x_dim = 1, gp_cons = [1 / 4]\<rparr>"

definition blank_tree :: "real GP_TREE" where
  "blank_tree = \<lparr>tree = [], len = 0, p = 0, mu = None\<rparr>"

text \<open>\<open>comb n\<close> is \<open>ADD(c, ADD(c, ... ADD(c, c)))\<close> with \<open>n\<close> functions: \<open>2 n + 1\<close> codes.\<close>

fun comb :: "nat \<Rightarrow> int list" where
  "comb 0 = [4]"
| "comb (Suc n) = 0 # 4 # comb n"

definition comb_tree :: "nat \<Rightarrow> real GP_TREE" where
  "comb_tree n = \<lparr>tree = comb n, len = int (length (comb n)), p = 0, mu = Some [1 / 2]\<rparr>"

text \<open>
  The tree \<open>ADD(c, IN:0)\<close>, and the draws of a growth whose first attempt runs past
  \<open>GP_MAX_LEN\<close>.
\<close>

definition sum_tree :: "real GP_TREE" where
  "sum_tree = \<lparr>tree = [0, 4, 5], len = 3, p = 0, mu = Some [1 / 2]\<rparr>"

definition regrow_script :: "int list" where
  "regrow_script = replicate 20001 1 @ [1, 0, 0, 0, 0, 1]"

section \<open>Expression trees behind the prefix encoding\<close>

text \<open>
  For the proofs about \<^verbatim>\<open>tree_traverse\<close>: the expression a code array encodes. A function
  code has two arguments, any code from \<open>GP_NUM_FUNC\<close> on is a terminal; \<open>flatten\<close> is the
  prefix order in which gp.c stores the codes.
\<close>

datatype expr = Terminal int | Function int expr expr

fun flatten :: "expr \<Rightarrow> int list" where
  "flatten (Terminal c) = [c]"
| "flatten (Function f l r) = f # flatten l @ flatten r"

fun well_coded :: "expr \<Rightarrow> bool" where
  "well_coded (Terminal c) = (GP_NUM_FUNC \<le> c)"
| "well_coded (Function f l r) =
     ((f = ADD \<or> f = SUB \<or> f = MUL \<or> f = DIV) \<and> well_coded l \<and> well_coded r)"

fun comb_expr :: "nat \<Rightarrow> expr" where
  "comb_expr 0 = Terminal 4"
| "comb_expr (Suc n) = Function 0 (Terminal 4) (comb_expr n)"

section \<open>Saving and loading a GP tree (gp.c)\<close>

text \<open>
  The stream behind \<^verbatim>\<open>FILE *fp\<close> is the list of its bytes. \<^verbatim>\<open>fwrite\<close> and \<^verbatim>\<open>fread\<close>
  copy the bytes of the objects as the host lays them out: an \<^verbatim>\<open>int\<close> is 4 bytes in
  two's complement, a \<^verbatim>\<open>double\<close> is the 8 bytes of its bit pattern (the type \<open>64 word\<close>),
  least significant byte first.
\<close>

type_synonym byte = "8 word"
type_synonym double_bits = "64 word"

fun le_bytes :: "nat \<Rightarrow> nat \<Rightarrow> byte list" where
  "le_bytes 0 v = []"
| "le_bytes (Suc n) v = of_nat (v mod 256) # le_bytes n (v div 256)"

fun le_value :: "byte list \<Rightarrow> nat" where
  "le_value [] = 0"
| "le_value (b # bs) = unat b + 256 * le_value bs"

definition int_bytes :: "int \<Rightarrow> byte list" where
  "int_bytes v = le_bytes 4 (unat (word_of_int v :: 32 word))"

definition bytes_int :: "byte list \<Rightarrow> int" where
  "bytes_int bs = sint (of_nat (le_value bs) :: 32 word)"

definition double_bytes :: "double_bits \<Rightarrow> byte list" where
  "double_bytes d = le_bytes 8 (unat d)"

definition bytes_double :: "byte list \<Rightarrow> double_bits" where
  "bytes_double bs = of_nat (le_value bs)"

text \<open>
  \<^verbatim>\<open>fread(ptr, size, n, fp)\<close> copies the bytes the stream still has, at most \<open>n\<close>
  elements, over the object at \<open>ptr\<close> and returns the number of complete elements. An
  element the stream ends in keeps its bytes that did not arrive, and the elements after
  it are left as they were. The first argument of the functions below is the object as it
  is before the call; the result is the count, the object after the call and the rest of
  the stream.
\<close>

definition fread_int :: "int \<Rightarrow> byte list \<Rightarrow> nat \<times> int \<times> byte list" where
  "fread_int old fp =
     (if 4 \<le> length fp then (1, bytes_int (take 4 fp), drop 4 fp)
      else if fp = [] then (0, old, [])
      else (0, bytes_int (fp @ drop (length fp) (int_bytes old)), []))"

definition fread_double :: "double_bits \<Rightarrow> byte list \<Rightarrow> nat \<times> double_bits \<times> byte list" where
  "fread_double old fp =
     (if 8 \<le> length fp then (1, bytes_double (take 8 fp), drop 8 fp)
      else if fp = [] then (0, old, [])
      else (0, bytes_double (fp @ drop (length fp) (double_bytes old)), []))"

fun fread_ints :: "int list \<Rightarrow> byte list \<Rightarrow> nat \<times> int list \<times> byte list" where
  "fread_ints [] fp = (0, [], fp)"
| "fread_ints (old # olds) fp =
     (case fread_int old fp of (c, v, fp1) \<Rightarrow>
      case fread_ints olds fp1 of (cs, vs, fp2) \<Rightarrow> (c + cs, v # vs, fp2))"

fun fread_doubles ::
  "double_bits list \<Rightarrow> byte list \<Rightarrow> nat \<times> double_bits list \<times> byte list" where
  "fread_doubles [] fp = (0, [], fp)"
| "fread_doubles (old # olds) fp =
     (case fread_double old fp of (c, v, fp1) \<Rightarrow>
      case fread_doubles olds fp1 of (cs, vs, fp2) \<Rightarrow> (c + cs, v # vs, fp2))"

text \<open>
  \<^verbatim>\<open>tree_save\<close> appends \<open>p\<close>, \<open>len\<close>, \<open>len\<close> codes and \<open>N_MU\<close> rates to the stream and
  returns the number of elements written.
\<close>

definition tree_save :: "double_bits GP_TREE \<Rightarrow> byte list \<Rightarrow> error + (nat \<times> byte list)" where
  "tree_save gp fp =
     (let fp1 = fp @ int_bytes (p gp);
          fp2 = fp1 @ int_bytes (len gp)
      in
      if len gp < 0 \<or> int (length (tree gp)) < len gp then Inl OutOfBounds
      else
        (let fp3 = fp2 @ concat (map int_bytes (take (nat (len gp)) (tree gp))) in
         case mu gp of
           None \<Rightarrow> Inl InvalidPointer
         | Some m \<Rightarrow>
             if length m < N_MU then Inl OutOfBounds
             else Inr (1 + 1 + nat (len gp) + N_MU,
                       fp3 @ concat (map double_bytes (take N_MU m)))))"

text \<open>
  \<^verbatim>\<open>tree_load\<close> reads into the tree \<open>gp\<close> it is handed and returns the sum of the
  counts, which it never tests. It allocates the block \<open>tree\<close> of \<open>len\<close> ints, whose cells
  hold what \<^verbatim>\<open>malloc\<close> left there (the parameter \<open>junk\<close>, by index) until they are read.
  The rates are read into the block \<open>gp->mu\<close> points to on entry, which \<^verbatim>\<open>tree_load\<close>
  does not allocate: bytes that arrive for a \<open>mu\<close> that points to no block are written
  through an invalid pointer (\<open>InvalidPointer\<close>), and bytes that arrive for cells past
  the end of the block are \<open>OutOfBounds\<close>. When the stream has no byte left for the
  rates nothing is stored and the call returns.
\<close>

definition tree_load ::
  "(nat \<Rightarrow> int) \<Rightarrow> double_bits GP_TREE \<Rightarrow> byte list \<Rightarrow>
     error + (nat \<times> double_bits GP_TREE \<times> byte list)" where
  "tree_load junk gp fp =
     (case fread_int (p gp) fp of (s1, pv, fp1) \<Rightarrow>
      case fread_int (len gp) fp1 of (s2, lv, fp2) \<Rightarrow>
        if lv < 1 then Inl ReadError
        else
          (case fread_ints (map junk [0..<nat lv]) fp2 of (s3, codes, fp3) \<Rightarrow>
             (case mu gp of
                None \<Rightarrow>
                  if fp3 = [] then
                    Inr (s1 + s2 + s3, gp\<lparr>p := pv, len := lv, tree := codes\<rparr>, fp3)
                  else Inl InvalidPointer
              | Some m \<Rightarrow>
                  if length m < min N_MU ((length fp3 + 7) div 8) then Inl OutOfBounds
                  else
                    (case fread_doubles (take N_MU m) fp3 of (s4, ds, fp4) \<Rightarrow>
                       Inr (s1 + s2 + s3 + s4,
                            gp\<lparr>p := pv, len := lv, tree := codes,
                               mu := Some (ds @ drop N_MU m)\<rparr>,
                            fp4)))))"

text \<open>
  \<^verbatim>\<open>tree_copy\<close>, the sibling that builds a tree from another one: it allocates both
  blocks of the destination.
\<close>

definition tree_copy :: "'d GP_TREE \<Rightarrow> 'd GP_TREE \<Rightarrow> error + 'd GP_TREE" where
  "tree_copy dest src =
     (if len src < 0 \<or> int (length (tree src)) < len src then Inl OutOfBounds
      else
        (case mu src of
           None \<Rightarrow> Inl InvalidPointer
         | Some m \<Rightarrow>
             if length m < N_MU then Inl OutOfBounds
             else Inr (dest\<lparr>len := len src, tree := take (nat (len src)) (tree src),
                            p := p src, mu := Some (take N_MU m)\<rparr>)))"

definition int32 :: "int \<Rightarrow> bool" where
  "int32 v = (- 2147483648 \<le> v \<and> v < 2147483648)"

text \<open>
  A tree to save, and a \<^verbatim>\<open>struct GP_TREE\<close> that was only allocated, with no block
  behind \<open>tree\<close> and \<open>mu\<close>.
\<close>

definition saved_tree :: "double_bits GP_TREE" where
  "saved_tree = \<lparr>tree = [0, 4, 5], len = 3, p = 3, mu = Some [0x3FE0000000000000]\<rparr>"

definition fresh_tree :: "double_bits GP_TREE" where
  "fresh_tree = \<lparr>tree = [], len = 0, p = 0, mu = None\<rparr>"

text \<open>The 28 bytes \<^verbatim>\<open>tree_save\<close> writes for \<open>saved_tree\<close>.\<close>

definition saved_bytes :: "byte list" where
  "saved_bytes =
     int_bytes 3 @ int_bytes 3 @ concat (map int_bytes [0, 4, 5])
       @ concat (map double_bytes [0x3FE0000000000000])"

section \<open>Protected division\<close>

text \<open>
  C1. Evaluating a \<open>DIV\<close> node whose denominator sub-tree evaluates to exactly zero
  returns the value of the numerator sub-tree, whatever the tree, the input vector and the
  double arithmetic are; in particular \<open>DIV(IN:0, SUB(IN:0, IN:0))\<close> on \<open>x = [3.0]\<close>
  returns \<open>3.0\<close>, leaving the cursor after the five nodes.
\<close>

theorem tree_eval_protected_division:
  "(\<forall>(ops :: 'd fp_ops) xcsf gp x num den gp2 gp3.
      0 \<le> p gp \<and> p gp < int (length (tree gp)) \<and> 0 \<le> GP_NUM_CONS xcsf \<and>
      tree gp ! nat (p gp) = DIV \<and>
      tree_eval ops xcsf (gp\<lparr>p := p gp + 1\<rparr>) x = Inr (num, gp2) \<and>
      tree_eval ops xcsf gp2 x = Inr (den, gp3) \<and>
      fp_is_zero ops den
      \<longrightarrow> tree_eval ops xcsf gp x = Inr (num, gp3))
   \<and> (\<forall>nc cs. 0 \<le> nc \<longrightarrow>
        tree_eval real_ops (s2_xcsf nc cs) (s2_tree nc) [3] = Inr (3, (s2_tree nc)\<lparr>p := 5\<rparr>))"
proof (intro conjI allI impI)
  fix ops :: "'d fp_ops" and xcsf gp x num den gp2 gp3
  assume h: "0 \<le> p gp \<and> p gp < int (length (tree gp)) \<and> 0 \<le> GP_NUM_CONS xcsf \<and>
      tree gp ! nat (p gp) = DIV \<and>
      tree_eval ops xcsf (gp\<lparr>p := p gp + 1\<rparr>) x = Inr (num, gp2) \<and>
      tree_eval ops xcsf gp2 x = Inr (den, gp3) \<and>
      fp_is_zero ops den"
  then show "tree_eval ops xcsf gp x = Inr (num, gp3)"
    by (subst tree_eval.simps) (simp add: gp_consts)
next
  fix nc :: int and cs :: "real list"
  assume "0 \<le> nc"
  then show "tree_eval real_ops (s2_xcsf nc cs) (s2_tree nc) [3] = Inr (3, (s2_tree nc)\<lparr>p := 5\<rparr>)"
    by (simp add: tree_eval.simps s2_xcsf_def s2_tree_def real_ops_def gp_consts Let_def)
qed

theorem tree_eval_protected_division_witness:
  "0 \<le> p (s2_tree 2) \<and> p (s2_tree 2) < int (length (tree (s2_tree 2))) \<and>
   0 \<le> GP_NUM_CONS (s2_xcsf 2 [1, 7]) \<and>
   tree (s2_tree 2) ! nat (p (s2_tree 2)) = DIV \<and>
   tree_eval real_ops (s2_xcsf 2 [1, 7]) ((s2_tree 2)\<lparr>p := p (s2_tree 2) + 1\<rparr>) [3]
     = Inr (3, (s2_tree 2)\<lparr>p := 2\<rparr>) \<and>
   tree_eval real_ops (s2_xcsf 2 [1, 7]) ((s2_tree 2)\<lparr>p := 2\<rparr>) [3]
     = Inr (0, (s2_tree 2)\<lparr>p := 5\<rparr>) \<and>
   fp_is_zero real_ops 0 \<and>
   tree_eval real_ops (s2_xcsf 2 [1, 7]) (s2_tree 2) [3] = Inr (3, (s2_tree 2)\<lparr>p := 5\<rparr>)"
proof -
  have a: "0 \<le> p (s2_tree 2) \<and> p (s2_tree 2) < int (length (tree (s2_tree 2))) \<and>
      0 \<le> GP_NUM_CONS (s2_xcsf 2 [1, 7]) \<and> tree (s2_tree 2) ! nat (p (s2_tree 2)) = DIV"
    by (simp add: s2_tree_def s2_xcsf_def)
  have n: "tree_eval real_ops (s2_xcsf 2 [1, 7]) ((s2_tree 2)\<lparr>p := p (s2_tree 2) + 1\<rparr>) [3]
     = Inr (3, (s2_tree 2)\<lparr>p := 2\<rparr>)"
    by (simp add: tree_eval.simps s2_xcsf_def s2_tree_def real_ops_def gp_consts)
  have d: "tree_eval real_ops (s2_xcsf 2 [1, 7]) ((s2_tree 2)\<lparr>p := 2\<rparr>) [3]
     = Inr (0, (s2_tree 2)\<lparr>p := 5\<rparr>)"
    by (simp add: tree_eval.simps s2_xcsf_def s2_tree_def real_ops_def gp_consts)
  have z: "fp_is_zero real_ops 0"
    by (simp add: real_ops_def)
  from a n d z
    tree_eval_protected_division[THEN conjunct1, rule_format,
      of "s2_tree 2" "s2_xcsf 2 [1, 7]" real_ops "[3]" 3 "(s2_tree 2)\<lparr>p := 2\<rparr>" 0
         "(s2_tree 2)\<lparr>p := 5\<rparr>"]
  show ?thesis by blast
qed

section \<open>Cached fields of a net\<close>

lemma insert_builds_net_one:
  "neural_insert heap_empty neural_init layer_a 0 = Inr (heap_one, net_one)"
  by (simp add: neural_insert_def neural_init_def heap_empty_def malloc_def store_def
                heap_one_def net_one_def layer_a_def)

lemma push_builds_net_two:
  "neural_push heap_one net_one layer_b = Inr (heap_two, net_two)"
  by (simp add: neural_push_def neural_insert_def heap_one_def net_one_def malloc_def
                store_def bind_err_def deref_def heap_two_def net_two_def layer_b_def
                fun_upd_twist)

lemma remove_tail_of_net_two:
  "neural_remove heap_two net_two 0 = Inr (heap_removed, net_removed)"
  by (simp add: neural_remove_def heap_two_def net_two_def bind_err_def deref_def
                store_def free_def fun_upd_twist heap_removed_def net_removed_def)

text \<open>
  C2 fails on the code. The net is built by \<^verbatim>\<open>neural_insert\<close> on the empty net and one
  \<^verbatim>\<open>neural_push\<close>; its cached fields agree with its layers. Removing the layer at position
  0 (the tail) returns a net of one layer whose tail is the layer with 3 inputs, and
  \<open>n_inputs\<close> still holds 2, the count of the layer removed: the tail block of
  \<^verbatim>\<open>neural_remove\<close> updates no cached field, where the head block updates \<open>output\<close> and
  \<open>n_outputs\<close>.
\<close>

theorem neural_remove_tail_stale_n_inputs:
  "neural_insert heap_empty neural_init layer_a 0 = Inr (heap_one, net_one) \<and>
   neural_push heap_one net_one layer_b = Inr (heap_two, net_two) \<and>
   cache_ok heap_two net_two \<and>
   neural_remove heap_two net_two 0 = Inr (heap_removed, net_removed) \<and>
   n_layers net_removed = 1 \<and>
   deref heap_removed (tail net_removed) = Inr \<lparr>layer = layer_b, prev = None, next = None\<rparr> \<and>
   Layer.n_inputs layer_b = 3 \<and> Net.n_inputs net_removed = 2 \<and>
   Net.n_outputs net_removed = Layer.n_outputs layer_b \<and>
   Net.output net_removed = Layer.output layer_b \<and>
   \<not> cache_ok heap_removed net_removed"
proof (intro conjI)
  show "neural_insert heap_empty neural_init layer_a 0 = Inr (heap_one, net_one)"
    by (rule insert_builds_net_one)
  show "neural_push heap_one net_one layer_b = Inr (heap_two, net_two)"
    by (rule push_builds_net_two)
  show "cache_ok heap_two net_two"
    by (simp add: cache_ok_def deref_def heap_two_def net_two_def layer_a_def layer_b_def)
  show "neural_remove heap_two net_two 0 = Inr (heap_removed, net_removed)"
    by (rule remove_tail_of_net_two)
  show "n_layers net_removed = 1" by (simp add: net_removed_def)
  show "deref heap_removed (tail net_removed)
          = Inr \<lparr>layer = layer_b, prev = None, next = None\<rparr>"
    by (simp add: deref_def heap_removed_def net_removed_def)
  show "Layer.n_inputs layer_b = 3" by (simp add: layer_b_def)
  show "Net.n_inputs net_removed = 2" by (simp add: net_removed_def)
  show "Net.n_outputs net_removed = Layer.n_outputs layer_b"
    by (simp add: net_removed_def layer_b_def)
  show "Net.output net_removed = Layer.output layer_b"
    by (simp add: net_removed_def layer_b_def)
  show "\<not> cache_ok heap_removed net_removed"
    by (simp add: cache_ok_def deref_def heap_removed_def net_removed_def layer_b_def)
qed

section \<open>Crossover of two trees\<close>

lemma flatten_nonempty: "flatten g \<noteq> []"
  by (cases g) simp_all

lemma tree_traverse_flatten:
  "well_coded g \<Longrightarrow>
     tree_traverse (pre @ flatten g @ post) (length pre) = Inr (length pre + length (flatten g))"
proof (induction g arbitrary: pre post)
  case (Terminal c)
  then show ?case
    by (subst tree_traverse.simps) (simp add: nth_append)
next
  case (Function f l r)
  let ?t = "pre @ flatten (Function f l r) @ post"
  have at: "?t ! length pre = f" by (simp add: nth_append)
  from Function.prems have f: "\<not> GP_NUM_FUNC \<le> f" "f = ADD \<or> f = SUB \<or> f = MUL \<or> f = DIV"
    and wl: "well_coded l" and wr: "well_coded r"
    by (auto simp: gp_consts)
  have left: "tree_traverse ?t (length pre + 1) = Inr (length pre + 1 + length (flatten l))"
    using Function.IH(1)[OF wl, of "pre @ [f]" "flatten r @ post"] by simp
  have right: "tree_traverse ?t (length pre + 1 + length (flatten l))
                 = Inr (length pre + 1 + length (flatten l) + length (flatten r))"
    using Function.IH(2)[OF wr, of "pre @ [f] @ flatten l" post] by simp
  show ?case
    by (subst tree_traverse.simps) (use at f left right in simp)
qed

lemma take_drop_step:
  assumes "i < q" and "q \<le> j" and "j \<le> length t"
  shows "take (j - i) (drop i t) = t ! i # take (q - (i + 1)) (drop (i + 1) t) @ take (j - q) (drop q t)"
proof -
  from assms have i: "i < length t" by simp
  have "take (j - i) (drop i t) = take (j - i) (t ! i # drop (Suc i) t)"
    using i by (simp add: Cons_nth_drop_Suc)
  also have "\<dots> = t ! i # take (j - Suc i) (drop (Suc i) t)"
  proof -
    have "j - i = Suc (j - Suc i)" using assms by simp
    then show ?thesis by simp
  qed
  also have "take (j - Suc i) (drop (Suc i) t)
               = take (q - Suc i) (drop (Suc i) t) @ take (j - q) (drop q t)"
  proof -
    have "j - Suc i = (q - Suc i) + (j - q)" using assms by simp
    then have "take (j - Suc i) (drop (Suc i) t)
                 = take (q - Suc i) (drop (Suc i) t) @ take (j - q) (drop (q - Suc i) (drop (Suc i) t))"
      by (simp add: take_add)
    moreover have "drop (q - Suc i) (drop (Suc i) t) = drop q t"
      using assms by simp
    ultimately show ?thesis by simp
  qed
  finally show ?thesis by simp
qed

lemma tree_traverse_expr:
  "tree_traverse t i = Inr j \<Longrightarrow>
     i < j \<and> j \<le> length t \<and> (\<exists>g. well_coded g \<and> flatten g = take (j - i) (drop i t))"
proof (induction t i arbitrary: j rule: tree_traverse.induct)
  case (1 t pos)
  note unfold = tree_traverse.simps[of t pos]
  from "1.prems" have inb: "\<not> length t \<le> pos"
    by (auto simp: unfold split: if_splits)
  show ?case
  proof (cases "GP_NUM_FUNC \<le> t ! pos")
    case True
    with "1.prems" inb have j: "j = pos + 1" by (simp add: unfold)
    have "well_coded (Terminal (t ! pos))" using True by simp
    moreover have "flatten (Terminal (t ! pos)) = take (j - pos) (drop pos t)"
      using inb j by (simp add: take_Suc_conv_app_nth Cons_nth_drop_Suc[symmetric])
    ultimately show ?thesis using j inb by (metis less_add_one not_le_imp_less Suc_leI Suc_eq_plus1)
  next
    case False
    with "1.prems" inb obtain q where
      fn: "t ! pos = ADD \<or> t ! pos = SUB \<or> t ! pos = MUL \<or> t ! pos = DIV" and
      e1: "tree_traverse t (pos + 1) = Inr q" and e2: "tree_traverse t q = Inr j"
      by (auto simp: unfold split: if_splits sum.splits)
    from "1.IH"(1)[OF inb False fn e1] obtain gl where
      q: "pos + 1 < q" "q \<le> length t" and gl: "well_coded gl"
      "flatten gl = take (q - (pos + 1)) (drop (pos + 1) t)"
      by blast
    from "1.IH"(2)[OF inb False fn e1 e2] obtain gr where
      j: "q < j" "j \<le> length t" and gr: "well_coded gr" "flatten gr = take (j - q) (drop q t)"
      by blast
    have "well_coded (Function (t ! pos) gl gr)" using fn gl gr by simp
    moreover have "flatten (Function (t ! pos) gl gr) = take (j - pos) (drop pos t)"
      using take_drop_step[of pos q j t] q j gl gr by simp
    ultimately show ?thesis using q j by (metis add_lessD1 less_trans)
  qed
qed

text \<open>
  Every position of an encoded expression starts a sub-expression, and replacing that
  range by the codes of another expression gives the codes of an expression.
\<close>

lemma subexpr_at:
  "well_coded g \<Longrightarrow> s < length (flatten g) \<Longrightarrow>
     \<exists>pre sub post. flatten g = pre @ flatten sub @ post \<and> length pre = s \<and> well_coded sub \<and>
        (\<forall>sub'. well_coded sub' \<longrightarrow>
           (\<exists>g'. well_coded g' \<and> flatten g' = pre @ flatten sub' @ post))"
proof (induction g arbitrary: s)
  case (Terminal c)
  then have "s = 0" by simp
  with Terminal show ?case
    by (intro exI[of _ "[]"] exI[of _ "Terminal c"]) auto
next
  case (Function f l r)
  show ?case
  proof (cases "s = 0")
    case True
    with Function.prems show ?thesis
      by (intro exI[of _ "[]"] exI[of _ "Function f l r"]) auto
  next
    case False
    from Function.prems have wl: "well_coded l" and wr: "well_coded r"
      and fn: "f = ADD \<or> f = SUB \<or> f = MUL \<or> f = DIV" by auto
    show ?thesis
    proof (cases "s - 1 < length (flatten l)")
      case True
      from Function.IH(1)[OF wl True] obtain pre sub post where
        eq: "flatten l = pre @ flatten sub @ post" and len: "length pre = s - 1"
        and ws: "well_coded sub"
        and rep: "\<forall>sub'. well_coded sub' \<longrightarrow>
                    (\<exists>g'. well_coded g' \<and> flatten g' = pre @ flatten sub' @ post)"
        by blast
      have "\<forall>sub'. well_coded sub' \<longrightarrow>
              (\<exists>g'. well_coded g' \<and> flatten g' = (f # pre) @ flatten sub' @ (post @ flatten r))"
      proof (intro allI impI)
        fix sub' assume "well_coded sub'"
        with rep obtain l' where "well_coded l'" "flatten l' = pre @ flatten sub' @ post"
          by blast
        then have "well_coded (Function f l' r) \<and>
                   flatten (Function f l' r) = (f # pre) @ flatten sub' @ (post @ flatten r)"
          using wr fn by simp
        then show "\<exists>g'. well_coded g' \<and> flatten g' = (f # pre) @ flatten sub' @ (post @ flatten r)"
          by blast
      qed
      moreover have "flatten (Function f l r) = (f # pre) @ flatten sub @ (post @ flatten r)"
        using eq by simp
      moreover have "length (f # pre) = s" using len False by simp
      ultimately show ?thesis using ws by blast
    next
      case nl: False
      with Function.prems False have "s - 1 - length (flatten l) < length (flatten r)"
        by simp
      from Function.IH(2)[OF wr this] obtain pre sub post where
        eq: "flatten r = pre @ flatten sub @ post"
        and len: "length pre = s - 1 - length (flatten l)"
        and ws: "well_coded sub"
        and rep: "\<forall>sub'. well_coded sub' \<longrightarrow>
                    (\<exists>g'. well_coded g' \<and> flatten g' = pre @ flatten sub' @ post)"
        by blast
      have "\<forall>sub'. well_coded sub' \<longrightarrow>
              (\<exists>g'. well_coded g' \<and> flatten g' = (f # flatten l @ pre) @ flatten sub' @ post)"
      proof (intro allI impI)
        fix sub' assume "well_coded sub'"
        with rep obtain r' where "well_coded r'" "flatten r' = pre @ flatten sub' @ post"
          by blast
        then have "well_coded (Function f l r') \<and>
                   flatten (Function f l r') = (f # flatten l @ pre) @ flatten sub' @ post"
          using wl fn by simp
        then show "\<exists>g'. well_coded g' \<and> flatten g' = (f # flatten l @ pre) @ flatten sub' @ post"
          by blast
      qed
      moreover have "flatten (Function f l r) = (f # flatten l @ pre) @ flatten sub @ post"
        using eq by simp
      moreover have "length (f # flatten l @ pre) = s" using len False nl by simp
      ultimately show ?thesis using ws by blast
    qed
  qed
qed

text \<open>
  A code array that one traversal covers exactly, cut at a position \<open>s\<close>: the traversal
  from \<open>s\<close> ends at \<open>e\<close> inside the array, and any array that one traversal covers can
  take the place of the range from \<open>s\<close> to \<open>e\<close>.
\<close>

lemma splice_point:
  assumes whole: "tree_traverse t 0 = Inr (length t)" and s: "s < length t"
  shows "\<exists>e. tree_traverse t s = Inr e \<and> s < e \<and> e \<le> length t \<and>
              tree_traverse (take (e - s) (drop s t)) 0 = Inr (e - s) \<and>
              (\<forall>ys. tree_traverse ys 0 = Inr (length ys) \<longrightarrow>
                 tree_traverse (take s t @ ys @ drop e t) 0
                   = Inr (length (take s t @ ys @ drop e t)))"
proof -
  from tree_traverse_expr[OF whole] obtain g where g: "well_coded g" "flatten g = t"
    by auto
  from subexpr_at[OF g(1), of s] s g(2) obtain pre sub post where
    eq: "t = pre @ flatten sub @ post" and len: "length pre = s" and ws: "well_coded sub"
    and rep: "\<forall>sub'. well_coded sub' \<longrightarrow>
                (\<exists>g'. well_coded g' \<and> flatten g' = pre @ flatten sub' @ post)"
    by auto
  let ?e = "s + length (flatten sub)"
  have trav: "tree_traverse t s = Inr ?e"
    using tree_traverse_flatten[OF ws, of pre post] eq len by simp
  have pre: "take s t = pre" and mid: "take (?e - s) (drop s t) = flatten sub"
    and post: "drop ?e t = post"
    using eq len by simp_all
  have sub: "tree_traverse (take (?e - s) (drop s t)) 0 = Inr (?e - s)"
    using tree_traverse_flatten[OF ws, of "[]" "[]"] mid by simp
  have repl: "\<forall>ys. tree_traverse ys 0 = Inr (length ys) \<longrightarrow>
                 tree_traverse (take s t @ ys @ drop ?e t) 0
                   = Inr (length (take s t @ ys @ drop ?e t))"
  proof (intro allI impI)
    fix ys assume "tree_traverse ys 0 = Inr (length ys)"
    from tree_traverse_expr[OF this] obtain sub' where s': "well_coded sub'" "flatten sub' = ys"
      by auto
    with rep obtain g' where g': "well_coded g'" "flatten g' = pre @ ys @ post" by blast
    from tree_traverse_flatten[OF g'(1), of "[]" "[]"] g'(2)
    show "tree_traverse (take s t @ ys @ drop ?e t) 0
            = Inr (length (take s t @ ys @ drop ?e t))"
      by (simp add: pre post)
  qed
  have "s < ?e" using flatten_nonempty[of sub] by simp
  moreover have "?e \<le> length t" using eq len by simp
  ultimately show ?thesis using trav sub repl by blast
qed

lemma copy_ints_range:
  "off \<le> e \<Longrightarrow> e \<le> length src \<Longrightarrow>
     copy_ints src (int off) (int e - int off) = Inr (take (e - off) (drop off src))"
  by (simp add: copy_ints_def nat_diff_distrib')

text \<open>
  Crossover of two valid trees whose blocks are allocated, cut inside the trees: both
  children are valid prefix-encoded trees, each parent's range is spliced into the other,
  the lengths add up to the lengths of the parents, and \<open>mu\<close> of both children is freed.
\<close>

lemma tree_crossover_result:
  assumes v1: "valid_tree p1" and v2: "valid_tree p2"
    and mu1: "mu p1 = Some m1" and mu2: "mu p2 = Some m2"
    and d1: "irand_uniform u 0 (len p1) rng = (start1, rng1)"
    and s1: "0 \<le> start1" "start1 < len p1"
    and d2: "irand_uniform u 0 (len p2) rng1 = (start2, rng2)"
    and s2: "0 \<le> start2" "start2 < len p2"
  shows "\<exists>end1 end2 c1 c2.
           tree_traverse (tree p1) (nat start1) = Inr end1 \<and>
           tree_traverse (tree p2) (nat start2) = Inr end2 \<and>
           nat start1 < end1 \<and> end1 \<le> length (tree p1) \<and>
           nat start2 < end2 \<and> end2 \<le> length (tree p2) \<and>
           tree_crossover u xcsf p1 p2 rng = Inr (c1, c2, rng2) \<and>
           tree c1 = take (nat start1) (tree p1)
                       @ take (end2 - nat start2) (drop (nat start2) (tree p2))
                       @ drop end1 (tree p1) \<and>
           tree c2 = take (nat start2) (tree p2)
                       @ take (end1 - nat start1) (drop (nat start1) (tree p1))
                       @ drop end2 (tree p2) \<and>
           c1 = p1\<lparr>tree := tree c1, mu := None, len := int (length (tree c1))\<rparr> \<and>
           c2 = p2\<lparr>tree := tree c2, mu := None, len := int (length (tree c2))\<rparr> \<and>
           valid_tree c1 \<and> valid_tree c2 \<and>
           len c1 + len c2 = len p1 + len p2"
proof -
  let ?t1 = "tree p1" and ?t2 = "tree p2"
  let ?s1 = "nat start1" and ?s2 = "nat start2"
  from v1 have len1: "len p1 = int (length ?t1)" and w1: "tree_traverse ?t1 0 = Inr (length ?t1)"
    by (simp_all add: valid_tree_def)
  from v2 have len2: "len p2 = int (length ?t2)" and w2: "tree_traverse ?t2 0 = Inr (length ?t2)"
    by (simp_all add: valid_tree_def)
  from s1 len1 have s1': "?s1 < length ?t1" by simp
  from s2 len2 have s2': "?s2 < length ?t2" by simp
  from splice_point[OF w1 s1'] obtain e1 where
    t1: "tree_traverse ?t1 ?s1 = Inr e1" and b1: "?s1 < e1" "e1 \<le> length ?t1"
    and sub1: "tree_traverse (take (e1 - ?s1) (drop ?s1 ?t1)) 0 = Inr (e1 - ?s1)"
    and rep1: "\<forall>ys. tree_traverse ys 0 = Inr (length ys) \<longrightarrow>
                 tree_traverse (take ?s1 ?t1 @ ys @ drop e1 ?t1) 0
                   = Inr (length (take ?s1 ?t1 @ ys @ drop e1 ?t1))"
    by blast
  from splice_point[OF w2 s2'] obtain e2 where
    t2: "tree_traverse ?t2 ?s2 = Inr e2" and b2: "?s2 < e2" "e2 \<le> length ?t2"
    and sub2: "tree_traverse (take (e2 - ?s2) (drop ?s2 ?t2)) 0 = Inr (e2 - ?s2)"
    and rep2: "\<forall>ys. tree_traverse ys 0 = Inr (length ys) \<longrightarrow>
                 tree_traverse (take ?s2 ?t2 @ ys @ drop e2 ?t2) 0
                   = Inr (length (take ?s2 ?t2 @ ys @ drop e2 ?t2))"
    by blast
  let ?m1 = "take (e1 - ?s1) (drop ?s1 ?t1)" and ?m2 = "take (e2 - ?s2) (drop ?s2 ?t2)"
  let ?new1 = "take ?s1 ?t1 @ ?m2 @ drop e1 ?t1"
  let ?new2 = "take ?s2 ?t2 @ ?m1 @ drop e2 ?t2"
  have lm1: "length ?m1 = e1 - ?s1" and lm2: "length ?m2 = e2 - ?s2"
    using b1 b2 by simp_all
  have n1: "tree_traverse ?new1 0 = Inr (length ?new1)"
    using rep1 sub2 lm2 by simp
  have n2: "tree_traverse ?new2 0 = Inr (length ?new2)"
    using rep2 sub1 lm1 by simp
  have st1: "int ?s1 = start1" and st2: "int ?s2 = start2" using s1 s2 by simp_all
  have a1: "copy_ints ?t1 0 start1 = Inr (take ?s1 ?t1)"
    using copy_ints_range[of 0 ?s1 ?t1] s1' st1 by simp
  have a2: "copy_ints ?t2 0 start2 = Inr (take ?s2 ?t2)"
    using copy_ints_range[of 0 ?s2 ?t2] s2' st2 by simp
  have m1: "copy_ints ?t1 start1 (int e1 - start1) = Inr ?m1"
    using copy_ints_range[of ?s1 e1 ?t1] b1 st1 by simp
  have m2: "copy_ints ?t2 start2 (int e2 - start2) = Inr ?m2"
    using copy_ints_range[of ?s2 e2 ?t2] b2 st2 by simp
  have c1: "copy_ints ?t1 (int e1) (len p1 - int e1) = Inr (drop e1 ?t1)"
    using copy_ints_range[of e1 "length ?t1" ?t1] b1 len1 by simp
  have c2: "copy_ints ?t2 (int e2) (len p2 - int e2) = Inr (drop e2 ?t2)"
    using copy_ints_range[of e2 "length ?t2" ?t2] b2 len2 by simp
  define new1 where "new1 = ?new1"
  define new2 where "new2 = ?new2"
  let ?c1 = "p1\<lparr>tree := new1, mu := None, len := int (length new1)\<rparr>"
  let ?c2 = "p2\<lparr>tree := new2, mu := None, len := int (length new2)\<rparr>"
  have nneg: "\<not> start1 < 0" "\<not> start2 < 0" using s1 s2 by simp_all
  have n1': "tree_traverse new1 0 = Inr (length new1)"
    and n2': "tree_traverse new2 0 = Inr (length new2)"
    using n1 n2 by (simp_all only: new1_def new2_def)
  have run: "tree_crossover u xcsf p1 p2 rng = Inr (?c1, ?c2, rng2)"
    unfolding tree_crossover_def Let_def d1 d2 fst_conv snd_conv
    apply (simp only: nneg if_False t1 t2 bind_err_def sum.case a1 a2 m1 m2 c1 c2)
    apply (simp only: new1_def[symmetric] new2_def[symmetric])
    apply (simp add: tree_free_def mu1 mu2 n1' n2')
    done
  have val1: "valid_tree ?c1" and val2: "valid_tree ?c2"
    using n1' n2' by (simp_all add: valid_tree_def)
  have "length new1 + length new2 = length ?t1 + length ?t2"
    using b1 b2 s1' s2' by (simp add: new1_def new2_def)
  then have sum: "len ?c1 + len ?c2 = len p1 + len p2"
    using len1 len2 by simp
  have tr: "tree ?c1 = ?new1" "tree ?c2 = ?new2" by (simp_all add: new1_def new2_def)
  have rec: "?c1 = p1\<lparr>tree := tree ?c1, mu := None, len := int (length (tree ?c1))\<rparr>"
    "?c2 = p2\<lparr>tree := tree ?c2, mu := None, len := int (length (tree ?c2))\<rparr>"
    by simp_all
  show ?thesis
    using t1 t2 b1 b2 run val1 val2 sum tr rec
    by (intro exI[of _ e1] exI[of _ e2] exI[of _ ?c1] exI[of _ ?c2]) (simp only: simp_thms)
qed

lemma flatten_comb_expr: "flatten (comb_expr n) = comb n \<and> well_coded (comb_expr n)"
  by (induction n) (simp_all add: gp_consts)

lemma length_comb: "length (comb n) = 2 * n + 1"
  by (induction n) simp_all

lemma valid_comb_tree: "valid_tree (comb_tree n)"
  using tree_traverse_flatten[of "comb_expr n" "[]" "[]"] flatten_comb_expr[of n]
  by (simp add: valid_tree_def comb_tree_def)

lemma drop_comb_last: "drop (2 * n) (comb n) = [4]"
  by (induction n) simp_all

text \<open>
  A tree whose \<open>mu\<close> was freed cannot be crossed: \<^verbatim>\<open>tree_free\<close> frees it again. The
  children of a crossover are such trees.
\<close>

lemma tree_crossover_freed_mu:
  assumes v1: "valid_tree p1" and v2: "valid_tree p2"
    and mu: "mu p1 = None \<or> mu p2 = None"
    and d1: "irand_uniform u 0 (len p1) rng = (start1, rng1)"
    and s1: "0 \<le> start1" "start1 < len p1"
    and d2: "irand_uniform u 0 (len p2) rng1 = (start2, rng2)"
    and s2: "0 \<le> start2" "start2 < len p2"
  shows "tree_crossover u xcsf p1 p2 rng = Inl InvalidPointer"
proof -
  let ?t1 = "tree p1" and ?t2 = "tree p2"
  let ?s1 = "nat start1" and ?s2 = "nat start2"
  from v1 have len1: "len p1 = int (length ?t1)" and w1: "tree_traverse ?t1 0 = Inr (length ?t1)"
    by (simp_all add: valid_tree_def)
  from v2 have len2: "len p2 = int (length ?t2)" and w2: "tree_traverse ?t2 0 = Inr (length ?t2)"
    by (simp_all add: valid_tree_def)
  from s1 len1 have s1': "?s1 < length ?t1" by simp
  from s2 len2 have s2': "?s2 < length ?t2" by simp
  from splice_point[OF w1 s1'] obtain e1 where
    t1: "tree_traverse ?t1 ?s1 = Inr e1" and b1: "?s1 < e1" "e1 \<le> length ?t1"
    by blast
  from splice_point[OF w2 s2'] obtain e2 where
    t2: "tree_traverse ?t2 ?s2 = Inr e2" and b2: "?s2 < e2" "e2 \<le> length ?t2"
    by blast
  have st1: "int ?s1 = start1" and st2: "int ?s2 = start2" using s1 s2 by simp_all
  have a1: "copy_ints ?t1 0 start1 = Inr (take ?s1 ?t1)"
    using copy_ints_range[of 0 ?s1 ?t1] s1' st1 by simp
  have a2: "copy_ints ?t2 0 start2 = Inr (take ?s2 ?t2)"
    using copy_ints_range[of 0 ?s2 ?t2] s2' st2 by simp
  have m1: "copy_ints ?t1 start1 (int e1 - start1) = Inr (take (e1 - ?s1) (drop ?s1 ?t1))"
    using copy_ints_range[of ?s1 e1 ?t1] b1 st1 by simp
  have m2: "copy_ints ?t2 start2 (int e2 - start2) = Inr (take (e2 - ?s2) (drop ?s2 ?t2))"
    using copy_ints_range[of ?s2 e2 ?t2] b2 st2 by simp
  have c1: "copy_ints ?t1 (int e1) (len p1 - int e1) = Inr (drop e1 ?t1)"
    using copy_ints_range[of e1 "length ?t1" ?t1] b1 len1 by simp
  have c2: "copy_ints ?t2 (int e2) (len p2 - int e2) = Inr (drop e2 ?t2)"
    using copy_ints_range[of e2 "length ?t2" ?t2] b2 len2 by simp
  have nneg: "\<not> start1 < 0" "\<not> start2 < 0" using s1 s2 by simp_all
  show ?thesis
    unfolding tree_crossover_def Let_def d1 d2 fst_conv snd_conv
    apply (simp only: nneg if_False t1 t2 bind_err_def sum.case a1 a2 m1 m2 c1 c2)
    apply (use mu in \<open>auto simp: tree_free_def split: option.splits\<close>)
    done
qed

text \<open>
  C3 fails on the code: \<^verbatim>\<open>tree_crossover\<close> has no length check, although gp.c defines
  \<open>GP_MAX_LEN\<close> as the maximum length of a GP tree and \<^verbatim>\<open>tree_rand\<close> keeps to it. The
  two parents are valid trees of 9999 codes each, within \<open>GP_MAX_LEN\<close>, with their blocks
  allocated. Cut at the last leaf of the first and at the root of the second, crossover
  returns a first child that is a valid prefix-encoded tree of 19997 codes. Both children
  are returned with \<open>mu\<close> freed, so neither can be crossed again.
\<close>

theorem tree_crossover_exceeds_max_len:
  "valid_tree (comb_tree 4999) \<and> len (comb_tree 4999) = 9999 \<and>
   len (comb_tree 4999) \<le> GP_MAX_LEN \<and> mu (comb_tree 4999) = Some [1 / 2] \<and>
   tree_crossover script_utils (example_xcsf 5000) (comb_tree 4999) (comb_tree 4999) [9998, 0] =
     Inr (\<lparr>tree = take 9998 (comb 4999) @ comb 4999, len = 19997, p = 0, mu = None\<rparr>,
          \<lparr>tree = [4], len = 1, p = 0, mu = None\<rparr>, []) \<and>
   valid_tree \<lparr>tree = take 9998 (comb 4999) @ comb 4999, len = 19997, p = 0,
               mu = (None :: real list option)\<rparr> \<and>
   length (take 9998 (comb 4999) @ comb 4999) = 19997 \<and>
   GP_MAX_LEN < (19997 :: int) \<and>
   tree_crossover script_utils (example_xcsf 5000)
     \<lparr>tree = take 9998 (comb 4999) @ comb 4999, len = 19997, p = 0, mu = None\<rparr>
     \<lparr>tree = [4], len = 1, p = 0, mu = None\<rparr> [0, 0] = Inl InvalidPointer"
proof -
  let ?p = "comb_tree 4999"
  let ?c1 = "\<lparr>tree = take 9998 (comb 4999) @ comb 4999, len = 19997, p = 0,
              mu = (None :: real list option)\<rparr>"
  let ?c2 = "\<lparr>tree = [4], len = 1, p = 0, mu = (None :: real list option)\<rparr>"
  have len: "len ?p = 9999" and lt: "length (tree ?p) = 9999" and tp: "tree ?p = comb 4999"
    and mp: "mu ?p = Some [1 / 2]" and pp: "p ?p = 0"
    by (simp_all add: comb_tree_def length_comb)
  have d1: "irand_uniform script_utils 0 (len ?p) [9998, 0] = (9998, [0])"
    by (simp add: script_utils_def len)
  have d2: "irand_uniform script_utils 0 (len ?p) [0] = (0, [])"
    by (simp add: script_utils_def len)
  from tree_crossover_result[OF valid_comb_tree valid_comb_tree mp mp d1 _ _ d2,
                              of "example_xcsf 5000"]
  obtain end1 end2 c1 c2 where
    t2: "tree_traverse (tree ?p) (nat 0) = Inr end2" and
    b: "nat 9998 < end1" "end1 \<le> length (tree ?p)" and
    run: "tree_crossover script_utils (example_xcsf 5000) ?p ?p [9998, 0] = Inr (c1, c2, [])" and
    tr1: "tree c1 = take (nat 9998) (tree ?p) @ take (end2 - nat 0) (drop (nat 0) (tree ?p))
                     @ drop end1 (tree ?p)" and
    tr2: "tree c2 = take (nat 0) (tree ?p) @ take (end1 - nat 9998) (drop (nat 9998) (tree ?p))
                     @ drop end2 (tree ?p)" and
    rec: "c1 = ?p\<lparr>tree := tree c1, mu := None, len := int (length (tree c1))\<rparr>"
         "c2 = ?p\<lparr>tree := tree c2, mu := None, len := int (length (tree c2))\<rparr>" and
    val: "valid_tree c1" "valid_tree c2"
    by (auto simp: len)
  from b lt have e1: "end1 = 9999" by simp
  from t2 valid_comb_tree[of 4999] have e2: "end2 = 9999"
    by (simp add: valid_tree_def lt)
  have last: "drop 9998 (comb 4999) = [4]"
    using drop_comb_last[of 4999] by simp
  have l: "length (comb 4999) = 9999" by (simp add: length_comb)
  have c1t: "tree c1 = take 9998 (comb 4999) @ comb 4999"
    using tr1 by (simp add: e1 e2 tp l)
  have c2t: "tree c2 = [4]"
    using tr2 by (simp add: e1 e2 tp l last)
  have c1: "c1 = ?c1"
    using rec(1) by (simp add: c1t l comb_tree_def)
  have c2: "c2 = ?c2"
    using rec(2) by (simp add: c2t comb_tree_def)
  have l1: "length (take 9998 (comb 4999) @ comb 4999) = 19997" by (simp add: l)
  have e1': "irand_uniform script_utils 0 (len ?c1) [0, 0] = (0, [0])"
    and e2': "irand_uniform script_utils 0 (len ?c2) [0] = (0, [])"
    by (simp_all add: script_utils_def)
  have again: "tree_crossover script_utils (example_xcsf 5000) ?c1 ?c2 [0, 0] = Inl InvalidPointer"
    using tree_crossover_freed_mu[OF val[unfolded c1 c2] _ e1' _ _ e2', of "example_xcsf 5000"]
    by simp
  from run val(1) c1 c2 valid_comb_tree[of 4999] len mp l1 again show ?thesis
    by (simp add: GP_MAX_LEN_def)
qed

section \<open>Saving and loading\<close>

lemma length_le_bytes: "length (le_bytes n v) = n"
  by (induction n arbitrary: v) simp_all

lemma le_value_le_bytes: "le_value (le_bytes n v) = v mod 256 ^ n"
proof (induction n arbitrary: v)
  case 0
  show ?case by simp
next
  case (Suc n)
  have "unat (of_nat (v mod 256) :: byte) = v mod 256"
    by (simp add: unat_of_nat)
  then have "le_value (le_bytes (Suc n) v) = v mod 256 + 256 * ((v div 256) mod 256 ^ n)"
    by (simp add: Suc.IH)
  also have "\<dots> = v mod (256 * 256 ^ n)"
    by (simp add: mod_mult2_eq)
  finally show ?case by simp
qed

lemma bytes_int_int_bytes: "int32 v \<Longrightarrow> bytes_int (int_bytes v) = v"
proof -
  assume r: "int32 v"
  let ?w = "word_of_int v :: 32 word"
  have "unat ?w < 2 ^ LENGTH(32)" by (rule unsigned_less)
  then have "unat ?w < 2 ^ 32" by simp
  then have "le_value (le_bytes 4 (unat ?w)) = unat ?w"
    by (simp add: le_value_le_bytes)
  then have "bytes_int (int_bytes v) = sint ?w"
    by (simp add: bytes_int_def int_bytes_def)
  also have "\<dots> = v"
    using r by (simp add: sint_sbintrunc' signed_take_bit_int_eq_self int32_def)
  finally show ?thesis .
qed

lemma bytes_double_double_bytes: "bytes_double (double_bytes d) = d"
proof -
  have "unat d < 2 ^ LENGTH(64)" by (rule unsigned_less)
  then have "unat d < 2 ^ 64" by simp
  then have "le_value (le_bytes 8 (unat d)) = unat d"
    by (simp add: le_value_le_bytes)
  then show ?thesis by (simp add: bytes_double_def double_bytes_def)
qed

lemma fread_int_int_bytes:
  "int32 v \<Longrightarrow> fread_int old (int_bytes v @ rest) = (1, v, rest)"
  using bytes_int_int_bytes[of v]
  by (simp add: fread_int_def int_bytes_def length_le_bytes)

lemma fread_double_double_bytes:
  "fread_double old (double_bytes d @ rest) = (1, d, rest)"
  using bytes_double_double_bytes[of d]
  by (simp add: fread_double_def double_bytes_def length_le_bytes)

lemma fread_ints_int_bytes:
  "list_all int32 vs \<Longrightarrow> length olds = length vs \<Longrightarrow>
     fread_ints olds (concat (map int_bytes vs) @ rest) = (length vs, vs, rest)"
proof (induction vs arbitrary: olds)
  case Nil
  then show ?case by simp
next
  case (Cons v vs)
  then obtain old olds' where olds: "olds = old # olds'" and l: "length olds' = length vs"
    by (cases olds) auto
  from Cons.prems(1) have v: "int32 v" and vs: "list_all int32 vs" by simp_all
  show ?case
    by (simp add: olds fread_int_int_bytes[OF v] Cons.IH[OF vs l])
qed

lemma fread_doubles_double_bytes:
  "length olds = length ds \<Longrightarrow>
     fread_doubles olds (concat (map double_bytes ds) @ rest) = (length ds, ds, rest)"
proof (induction ds arbitrary: olds)
  case Nil
  then show ?case by simp
next
  case (Cons d ds)
  then obtain old olds' where olds: "olds = old # olds'" and l: "length olds' = length ds"
    by (cases olds) auto
  show ?case
    by (simp add: olds fread_double_double_bytes Cons.IH[OF l])
qed

text \<open>
  What \<^verbatim>\<open>tree_load\<close> does with the bytes \<^verbatim>\<open>tree_save\<close> wrote: it restores every attribute
  when the destination's \<open>mu\<close> already points to a block of \<open>N_MU\<close> doubles, and writes
  through an unallocated pointer when it does not.
\<close>

lemma tree_load_tree_save:
  assumes save: "tree_save gp [] = Inr (s, bytes)" and len: "1 \<le> len gp"
    and rng: "int32 (p gp)" "int32 (len gp)" "list_all int32 (tree gp)"
  shows "(mu dst = None \<longrightarrow> tree_load junk dst bytes = Inl InvalidPointer) \<and>
         (\<forall>buf. mu dst = Some buf \<and> length buf = N_MU \<longrightarrow>
            tree_load junk dst bytes = Inr (s, dst\<lparr>p := p gp, len := len gp,
                                                   tree := take (nat (len gp)) (tree gp),
                                                   mu := Some (take N_MU (the (mu gp)))\<rparr>, []))"
proof -
  from save obtain m where m: "mu gp = Some m" and lm: "N_MU \<le> length m"
    and inb: "len gp \<le> int (length (tree gp))"
    and s: "s = 1 + 1 + nat (len gp) + N_MU"
    and bytes: "bytes = int_bytes (p gp) @ int_bytes (len gp)
                  @ concat (map int_bytes (take (nat (len gp)) (tree gp)))
                  @ concat (map double_bytes (take N_MU m))"
    by (auto simp: tree_save_def Let_def split: if_splits option.splits)
  let ?codes = "take (nat (len gp)) (tree gp)"
  let ?rates = "concat (map double_bytes (take N_MU m))"
  have lc: "length ?codes = nat (len gp)" using inb len by simp
  have rc: "list_all int32 ?codes" using rng(3) by (auto simp: list_all_iff dest: in_set_takeD)
  have r1: "fread_int (p dst) bytes = (1, p gp, int_bytes (len gp) @ concat (map int_bytes ?codes)
                                        @ ?rates)"
    unfolding bytes by (rule fread_int_int_bytes[OF rng(1)])
  have r2: "fread_int (len dst) (int_bytes (len gp) @ concat (map int_bytes ?codes) @ ?rates)
              = (1, len gp, concat (map int_bytes ?codes) @ ?rates)"
    by (rule fread_int_int_bytes[OF rng(2)])
  have r3: "fread_ints (map junk [0..<nat (len gp)]) (concat (map int_bytes ?codes) @ ?rates)
              = (nat (len gp), ?codes, ?rates)"
    using fread_ints_int_bytes[OF rc, of "map junk [0..<nat (len gp)]" ?rates] lc by simp
  have lr: "length ?rates = 8 * N_MU"
    using lm by (cases m) (simp_all add: N_MU_def double_bytes_def length_le_bytes)
  have ne: "?rates \<noteq> []"
  proof
    assume "?rates = []"
    then have "length ?rates = 0" by (simp only: list.size)
    with lr show False by (simp add: N_MU_def)
  qed
  have nl: "\<not> len gp < 1" using len by simp
  show ?thesis
  proof (intro conjI allI impI)
    assume "mu dst = None"
    then show "tree_load junk dst bytes = Inl InvalidPointer"
      using ne by (simp add: tree_load_def r1 r2 r3 nl)
  next
    fix buf assume b: "mu dst = Some buf \<and> length buf = N_MU"
    have r4: "fread_doubles buf ?rates = (N_MU, take N_MU m, [])"
      using fread_doubles_double_bytes[of buf "take N_MU m" "[]"] lm b by simp
    have fits: "\<not> length buf < min N_MU ((length ?rates + 7) div 8)"
      using b by simp
    from b show "tree_load junk dst bytes = Inr (s, dst\<lparr>p := p gp, len := len gp,
                                              tree := take (nat (len gp)) (tree gp),
                                              mu := Some (take N_MU (the (mu gp)))\<rparr>, [])"
      using fits by (simp add: tree_load_def r1 r2 r3 r4 nl s m)
  qed
qed

lemma save_saved_tree: "tree_save saved_tree [] = Inr (6, saved_bytes)"
  by (simp add: tree_save_def saved_tree_def N_MU_def saved_bytes_def)

text \<open>
  A stream that ends early: \<^verbatim>\<open>tree_load\<close> ignores the counts of \<^verbatim>\<open>fread\<close>. From the
  first 20 bytes of the saved tree it reads \<open>p\<close>, \<open>len\<close> and the codes, stores no rate, and
  returns 5 with \<open>mu\<close> left as it was.
\<close>

lemma tree_load_short_stream:
  "tree_load junk (fresh_tree\<lparr>mu := Some [d]\<rparr>) (take 20 saved_bytes) =
     Inr (5, \<lparr>tree = [0, 4, 5], len = 3, p = 3, mu = Some [d]\<rparr>, []) \<and>
   tree_load junk fresh_tree (take 20 saved_bytes) =
     Inr (5, \<lparr>tree = [0, 4, 5], len = 3, p = 3, mu = None\<rparr>, [])"
proof -
  have pre: "take 20 saved_bytes = int_bytes 3 @ int_bytes 3 @ concat (map int_bytes [0, 4, 5])"
    by (simp add: saved_bytes_def int_bytes_def length_le_bytes)
  have i3: "int32 3" and c: "list_all int32 [0, 4, 5]" by (simp_all add: int32_def)
  have r: "fread_int old (int_bytes 3 @ rest) = (1, 3, rest)" for old rest
    by (rule fread_int_int_bytes[OF i3])
  have r3: "fread_ints [a, b, c] (int_bytes 0 @ int_bytes 4 @ int_bytes 5)
              = (3, [0, 4, 5], [])" for a b c
    using fread_ints_int_bytes[OF c, of "[a, b, c]" "[]"] by simp
  have up: "[0..<3] = [0, 1, 2 :: nat]" by (simp add: upt_rec)
  show ?thesis
    by (simp add: tree_load_def fresh_tree_def pre r r3 up N_MU_def fread_double_def
             del: fread_ints.simps)
qed

text \<open>
  C4 fails on the code. \<open>saved_tree\<close> is saved (6 elements, 28 bytes) and the stream is
  loaded into a tree structure that was only allocated:
  \<^verbatim>\<open>tree_load\<close> allocates \<open>tree\<close> and reads \<open>p\<close>, \<open>len\<close> and the codes, then hands the
  unallocated \<open>gp->mu\<close> to \<^verbatim>\<open>fread\<close>. The sibling \<^verbatim>\<open>tree_copy\<close> into the same structure
  allocates \<open>mu\<close> and returns every attribute; so does \<^verbatim>\<open>tree_load\<close> once a block of
  \<open>N_MU\<close> doubles is behind \<open>mu\<close>.
\<close>

theorem tree_load_unallocated_mu:
  "tree_save saved_tree [] = Inr (6, saved_bytes) \<and> length saved_bytes = 28 \<and>
   tree_load junk fresh_tree saved_bytes = Inl InvalidPointer \<and>
   tree_load junk (fresh_tree\<lparr>mu := Some [0]\<rparr>) saved_bytes = Inr (6, saved_tree, []) \<and>
   tree_copy fresh_tree saved_tree = Inr saved_tree"
proof -
  have rng: "int32 (p saved_tree)" "int32 (len saved_tree)" "list_all int32 (tree saved_tree)"
    and len: "1 \<le> len saved_tree"
    by (simp_all add: saved_tree_def int32_def)
  note rt = tree_load_tree_save[OF save_saved_tree len rng]
  have a: "tree_load junk fresh_tree saved_bytes = Inl InvalidPointer"
    using rt[of fresh_tree junk] by (simp add: fresh_tree_def)
  have b: "tree_load junk (fresh_tree\<lparr>mu := Some [0]\<rparr>) saved_bytes = Inr (6, saved_tree, [])"
    using rt[of "fresh_tree\<lparr>mu := Some [0]\<rparr>" junk]
    by (simp add: fresh_tree_def saved_tree_def N_MU_def)
  have c: "tree_copy fresh_tree saved_tree = Inr saved_tree"
    by (simp add: tree_copy_def fresh_tree_def saved_tree_def N_MU_def)
  have l: "length saved_bytes = 28"
    by (simp add: saved_bytes_def int_bytes_def double_bytes_def length_le_bytes)
  from save_saved_tree a b c l show ?thesis by blast
qed

section \<open>Inserting a layer\<close>

lemma links_allocated:
  "links h lo as \<Longrightarrow> a \<in> set as \<Longrightarrow> \<exists>nd. cells h a = Some nd"
  by (induction as arbitrary: lo) (auto split: option.splits)

lemma walk_prev_links:
  "links h lo as \<Longrightarrow>
     walk_prev h n (case as of [] \<Rightarrow> None | a # bs \<Rightarrow> Some a) =
       Inr (if n < length as then Some (as ! n) else None)"
proof (induction as arbitrary: n lo)
  case Nil
  then show ?case by (cases n) simp_all
next
  case (Cons a as)
  show ?case
  proof (cases n)
    case 0
    then show ?thesis by simp
  next
    case (Suc m)
    from Cons.prems obtain nd where nd: "cells h a = Some nd"
      and pr: "prev nd = (case as of [] \<Rightarrow> None | b # bs \<Rightarrow> Some b)"
      and rest: "links h (Some a) as"
      by (auto split: option.splits)
    from Cons.IH[OF rest, of m] nd pr Suc show ?thesis by simp
  qed
qed

lemma net_chain_walk:
  assumes "net_chain h net as"
  shows "walk_prev h n (tail net) = Inr (if n < length as then Some (as ! n) else None)"
  using assms walk_prev_links[of h None as n] by (simp add: net_chain_def)

lemma net_chain_head:
  assumes "net_chain h net as" and "as \<noteq> []"
  shows "head net = Some (last as)" and "tail net = Some (hd as)"
    and "last as < fresh h" and "\<exists>nd. cells h (last as) = Some nd"
proof -
  from assms show "head net = Some (last as)" by (simp add: net_chain_def)
  from assms show "tail net = Some (hd as)" by (cases as) (simp_all add: net_chain_def)
  from assms have "last as \<in> set as" by simp
  with assms show "last as < fresh h" by (auto simp: net_chain_def list_all_iff)
  from assms \<open>last as \<in> set as\<close> show "\<exists>nd. cells h (last as) = Some nd"
    by (auto simp: net_chain_def intro: links_allocated)
qed

lemma links_same_cells:
  "\<forall>a \<in> set as. cells h' a = cells h a \<Longrightarrow> links h' lo as = links h lo as"
  by (induction as arbitrary: lo) (auto split: option.splits)

lemma links_snoc:
  assumes "links h lo as" and "as \<noteq> []" and "distinct as" and "new \<notin> set as"
    and "cells h (last as) = Some head_nd"
    and "cells h' new = Some \<lparr>layer = l, prev = None, next = Some (last as)\<rparr>"
    and "cells h' (last as) = Some (head_nd\<lparr>prev := Some new\<rparr>)"
    and "\<forall>a \<in> set (butlast as). cells h' a = cells h a"
  shows "links h' lo (as @ [new])"
  using assms
proof (induction as arbitrary: lo)
  case Nil
  then show ?case by simp
next
  case (Cons a as)
  show ?case
  proof (cases as)
    case Nil
    with Cons.prems show ?thesis by (auto split: option.splits)
  next
    case (Cons b bs)
    with Cons.prems obtain nd where nd: "cells h a = Some nd" and nx: "next nd = lo"
      and pr: "prev nd = Some b" and rest: "links h (Some a) as"
      by (auto split: option.splits)
    from Cons.prems Cons have same: "cells h' a = cells h a" by simp
    have "links h' (Some a) (as @ [new])"
      using Cons.IH[OF rest] Cons.prems Cons by (auto split: if_splits)
    with same nd nx pr Cons show ?thesis by simp
  qed
qed

lemma net_chain_snoc:
  assumes chain: "net_chain h net as" and ne: "as \<noteq> []"
    and nd: "cells h (last as) = Some head_nd"
  shows "net_chain
           (h\<lparr>cells := (cells h)(fresh h \<mapsto> \<lparr>layer = l, prev = None, next = Some (last as)\<rparr>,
                                 last as \<mapsto> head_nd\<lparr>prev := Some (fresh h)\<rparr>),
              fresh := fresh h + 1\<rparr>)
           (net\<lparr>head := Some (fresh h), n_outputs := no, output := ou,
                n_layers := n_layers net + 1\<rparr>)
           (as @ [fresh h])"
proof -
  let ?h' = "h\<lparr>cells := (cells h)(fresh h \<mapsto> \<lparr>layer = l, prev = None, next = Some (last as)\<rparr>,
                                 last as \<mapsto> head_nd\<lparr>prev := Some (fresh h)\<rparr>),
              fresh := fresh h + 1\<rparr>"
  from chain have below: "\<forall>a \<in> set as. a < fresh h" and dist: "distinct as"
    and lk: "links h None as"
    by (auto simp: net_chain_def list_all_iff)
  from below have notin: "fresh h \<notin> set as" by auto
  from ne have lastin: "last as \<in> set as" by simp
  with below have fr: "last as \<noteq> fresh h" by auto
  have butlast_ne: "\<forall>a \<in> set (butlast as). a \<noteq> last as"
    using dist ne by (metis append_butlast_last_id distinct_append disjoint_iff
        list.set_intros(1))
  have "links ?h' None (as @ [fresh h])"
  proof (rule links_snoc[OF lk ne dist notin nd])
    show "cells ?h' (fresh h) = Some \<lparr>layer = l, prev = None, next = Some (last as)\<rparr>"
      using fr by simp
    show "cells ?h' (last as) = Some (head_nd\<lparr>prev := Some (fresh h)\<rparr>)"
      by simp
    show "\<forall>a \<in> set (butlast as). cells ?h' a = cells h a"
      using butlast_ne notin by (auto dest: in_set_butlastD)
  qed
  with chain ne below dist notin show ?thesis
    by (cases as) (auto simp: net_chain_def list_all_iff)
qed

text \<open>The result of \<^verbatim>\<open>neural_insert\<close> on a non-empty net when the walk ends at NULL.\<close>

lemma neural_insert_at_head:
  assumes chain: "net_chain h net as" and ne: "as \<noteq> []" and pos: "int (length as) \<le> pos"
    and nd: "cells h (last as) = Some head_nd"
  shows "neural_insert h net l pos =
     Inr (h\<lparr>cells := (cells h)(fresh h \<mapsto> \<lparr>layer = l, prev = None, next = Some (last as)\<rparr>,
                              last as \<mapsto> head_nd\<lparr>prev := Some (fresh h)\<rparr>),
            fresh := fresh h + 1\<rparr>,
          net\<lparr>head := Some (fresh h), n_outputs := Layer.n_outputs l,
              output := Layer.output l, n_layers := n_layers net + 1\<rparr>)"
proof -
  from pos have "\<not> nat pos < length as" by linarith
  with net_chain_walk[OF chain, of "nat pos"]
  have walk: "walk_prev h (nat pos) (tail net) = Inr None" by simp
  from net_chain_head[OF chain ne] have hd: "head net = Some (last as)"
    and tl: "tail net = Some (hd as)" by simp_all
  note walk' = walk[unfolded tl]
  show ?thesis
    by (simp add: neural_insert_def hd tl walk' bind_err_def malloc_def deref_def nd store_def)
qed

text \<open>
  Every net built from the empty net by pushes is linked as \<open>net_chain\<close> asks, the new
  node last.
\<close>

lemma net_chain_init: "net_chain h neural_init []"
  by (simp add: net_chain_def neural_init_def)

lemma neural_push_chain:
  assumes chain: "net_chain h net as"
  shows "\<exists>h' net'. neural_push h net l = Inr (h', net') \<and> net_chain h' net' (as @ [fresh h])"
proof (cases "as = []")
  case True
  with chain have "head net = None" and "n_layers net = 0" by (simp_all add: net_chain_def)
  with True show ?thesis
    by (simp add: neural_push_def neural_insert_def malloc_def store_def net_chain_def)
next
  case False
  from net_chain_head(4)[OF chain False] obtain head_nd where
    nd: "cells h (last as) = Some head_nd" by blast
  from chain have len: "n_layers net = int (length as)" by (simp add: net_chain_def)
  from neural_insert_at_head[OF chain False _ nd, of "n_layers net" l] len
       net_chain_snoc[OF chain False nd, where l = l and no = "Layer.n_outputs l"
                          and ou = "Layer.output l"]
  show ?thesis by (simp add: neural_push_def)
qed

lemma net_chain_two: "net_chain heap_two net_two [0, 1]"
  by (simp add: net_chain_def heap_two_def net_two_def)

text \<open>
  The branch of \<^verbatim>\<open>neural_insert\<close> marked \<^verbatim>\<open>// new tail\<close> is never taken: its test reads
  \<^verbatim>\<open>iter->next\<close> after the line before has stored \<^verbatim>\<open>new\<close> there. So no call on a
  non-empty net that returns has changed \<open>tail\<close> or \<open>n_inputs\<close>.
\<close>

lemma neural_insert_keeps_tail:
  assumes ne: "head net \<noteq> None" "tail net \<noteq> None"
    and res: "neural_insert h net l pos = Inr (h', net')"
  shows "tail net' = tail net \<and> Net.n_inputs net' = Net.n_inputs net"
proof -
  from ne res obtain iter where
    walk: "walk_prev h (nat pos) (tail net) = Inr iter"
    by (auto simp: neural_insert_def bind_err_def split: sum.splits)
  show ?thesis
  proof (cases iter)
    case None
    with ne res walk show ?thesis
      by (auto simp: neural_insert_def bind_err_def malloc_def Let_def split: sum.splits)
  next
    case (Some it)
    with ne res walk show ?thesis
      by (auto simp: neural_insert_def bind_err_def malloc_def store_def deref_def Let_def
               split: sum.splits option.splits if_splits)
  qed
qed

text \<open>
  On every non-empty net, a position that ends the walk at the tail (\<open>pos \<le> 0\<close>) makes
  \<^verbatim>\<open>neural_insert\<close> follow the NULL pointer in \<^verbatim>\<open>new->next\<close>: the new node took the
  tail's \<^verbatim>\<open>next\<close>, which is NULL, and the branch for the middle of the list runs.
\<close>

lemma neural_insert_at_tail_null:
  assumes chain: "net_chain h net as" and ne: "as \<noteq> []" and pos: "pos \<le> 0"
  shows "neural_insert h net l pos = Inl NullPointer"
proof -
  from ne obtain a bs where as: "as = a # bs" by (cases as) auto
  from chain as obtain nd where nd: "cells h a = Some nd" and nx: "next nd = None"
    and fr: "a < fresh h" and tl: "tail net = Some a"
    by (auto simp: net_chain_def split: option.splits)
  from net_chain_head(1)[OF chain ne] have hd: "head net = Some (last as)" .
  from pos have np: "nat pos = 0" by simp
  from fr have neq: "fresh h \<noteq> a" by simp
  show ?thesis
    using neq
    by (simp add: neural_insert_def hd tl np bind_err_def malloc_def deref_def store_def nd nx)
qed

text \<open>
  C5 fails on the code. The net of one layer is what \<^verbatim>\<open>neural_insert\<close> builds from the
  empty net, and the net of two layers is that net after one \<^verbatim>\<open>neural_push\<close>. On both,
  \<^verbatim>\<open>insert(layer, 0)\<close> places no layer: the walk from the tail stops at the tail node,
  the new node is linked to it, the test for a new tail reads the field just written, and
  the code follows \<^verbatim>\<open>new->next\<close>, which is NULL. The same call past the end of the
  list (\<^verbatim>\<open>neural_push\<close>) returns with the new layer at the head.
\<close>

theorem neural_insert_zero_null_dereference:
  "neural_insert heap_empty neural_init layer_a 0 = Inr (heap_one, net_one) \<and>
   n_layers net_one = 1 \<and> cache_ok heap_one net_one \<and>
   neural_insert heap_one net_one layer_b 0 = Inl NullPointer \<and>
   neural_push heap_one net_one layer_b = Inr (heap_two, net_two) \<and>
   n_layers net_two = 2 \<and> cache_ok heap_two net_two \<and>
   neural_insert heap_two net_two layer_c 0 = Inl NullPointer"
proof (intro conjI)
  show "neural_insert heap_empty neural_init layer_a 0 = Inr (heap_one, net_one)"
    by (simp add: neural_insert_def neural_init_def heap_empty_def malloc_def store_def
                  heap_one_def net_one_def layer_a_def)
  show "n_layers net_one = 1" by (simp add: net_one_def)
  show "cache_ok heap_one net_one"
    by (simp add: cache_ok_def deref_def heap_one_def net_one_def layer_a_def)
  show "neural_insert heap_one net_one layer_b 0 = Inl NullPointer"
    by (simp add: neural_insert_def heap_one_def net_one_def bind_err_def malloc_def
                  deref_def store_def)
  show "neural_push heap_one net_one layer_b = Inr (heap_two, net_two)"
    by (simp add: neural_push_def neural_insert_def heap_one_def net_one_def malloc_def
                  store_def bind_err_def deref_def heap_two_def net_two_def layer_b_def
                  fun_upd_twist)
  show "n_layers net_two = 2" by (simp add: net_two_def)
  show "cache_ok heap_two net_two"
    by (simp add: cache_ok_def deref_def heap_two_def net_two_def layer_a_def layer_b_def)
  show "neural_insert heap_two net_two layer_c 0 = Inl NullPointer"
    by (simp add: neural_insert_def heap_two_def net_two_def bind_err_def malloc_def
                  deref_def store_def)
qed

section \<open>The root of a grown tree\<close>

lemma tree_grow_frame:
  "tree_grow u xcsf buffer pos mx depth rng = Inr (n, buffer', rng') \<Longrightarrow>
     (n = - 1 \<or> pos < n) \<and> (0 \<le> pos \<longrightarrow> (\<forall>i < nat pos. buffer' i = buffer i))"
proof (induction u xcsf buffer pos mx depth rng arbitrary: n buffer' rng'
       rule: tree_grow.induct)
  case (1 u xcsf buffer pos mx depth rng)
  note unfold = tree_grow.simps[of u xcsf buffer pos mx depth rng]
  obtain prim0 rng1 where d0: "irand_uniform u 0 2 rng = (prim0, rng1)"
    by (cases "irand_uniform u 0 2 rng")
  show ?case
  proof (cases "pos \<ge> mx \<or> (if pos = 0 then 1 else prim0) = 0 \<or> depth = 0")
    case True
    with "1.prems" d0 show ?thesis
      by (auto simp: unfold split: if_splits prod.splits)
  next
    case False
    obtain prim rng2 where d1: "irand_uniform u 0 GP_NUM_FUNC rng1 = (prim, rng2)"
      by (cases "irand_uniform u 0 GP_NUM_FUNC rng1")
    from "1.prems" d0 d1 False obtain c b1 r3 where
      fn: "prim = ADD \<or> prim = SUB \<or> prim = MUL \<or> prim = DIV" and
      inb: "\<not> (pos < 0 \<or> GP_MAX_LEN \<le> pos)" and
      e1: "tree_grow u xcsf (buffer(nat pos := prim)) (pos + 1) mx (depth - 1) rng2
             = Inr (c, b1, r3)" and
      e2: "c < 0 \<and> n = - 1 \<and> buffer' = b1 \<or>
           \<not> c < 0 \<and> tree_grow u xcsf b1 c mx (depth - 1) r3 = Inr (n, buffer', rng')"
      by (auto simp: unfold split: if_splits sum.splits prod.splits)
    have nge: "\<not> mx \<le> pos" and nterm: "\<not> ((if pos = 0 then 1 else prim0) = 0 \<or> depth = 0)"
      using False by auto
    have s1: "(c = - 1 \<or> pos + 1 < c) \<and>
              (0 \<le> pos + 1 \<longrightarrow> (\<forall>i < nat (pos + 1). b1 i = (buffer(nat pos := prim)) i))"
      using "1.IH"(1)[OF d0[symmetric] nge nterm d1[symmetric] fn inb e1] .
    from e2 show ?thesis
    proof
      assume "c < 0 \<and> n = - 1 \<and> buffer' = b1"
      with s1 inb show ?thesis by auto
    next
      assume a: "\<not> c < 0 \<and> tree_grow u xcsf b1 c mx (depth - 1) r3 = Inr (n, buffer', rng')"
      then have nneg: "\<not> c < 0"
        and e2': "tree_grow u xcsf b1 c mx (depth - 1) r3 = Inr (n, buffer', rng')"
        by simp_all
      have s2: "(n = - 1 \<or> c < n) \<and> (0 \<le> c \<longrightarrow> (\<forall>i < nat c. buffer' i = b1 i))"
        using "1.IH"(2)[OF d0[symmetric] nge nterm d1[symmetric] fn inb e1 refl refl nneg e2'] .
      from s1 s2 nneg inb show ?thesis by auto
    qed
  qed
qed

lemma tree_grow_root:
  assumes run: "tree_grow u xcsf buffer 0 mx depth rng = Inr (n, buffer', rng')"
    and depth: "depth \<noteq> 0" and n: "0 \<le> n"
  shows "0 \<le> buffer' 0 \<and> buffer' 0 < GP_NUM_FUNC \<and> 1 \<le> n"
proof -
  note unfold = tree_grow.simps[of u xcsf buffer 0 mx depth rng]
  obtain prim0 rng1 where d0: "irand_uniform u 0 2 rng = (prim0, rng1)"
    by (cases "irand_uniform u 0 2 rng")
  obtain prim rng2 where d1: "irand_uniform u 0 GP_NUM_FUNC rng1 = (prim, rng2)"
    by (cases "irand_uniform u 0 GP_NUM_FUNC rng1")
  from run d0 d1 depth n obtain c b1 r3 where
    fn: "prim = ADD \<or> prim = SUB \<or> prim = MUL \<or> prim = DIV" and
    e1: "tree_grow u xcsf (buffer(0 := prim)) 1 mx (depth - 1) rng2 = Inr (c, b1, r3)" and
    nneg: "\<not> c < 0" and
    e2: "tree_grow u xcsf b1 c mx (depth - 1) r3 = Inr (n, buffer', rng')"
    by (auto simp: unfold split: if_splits sum.splits prod.splits)
  from tree_grow_frame[OF e1] nneg have c: "1 < c" and b1: "b1 0 = prim" by auto
  from tree_grow_frame[OF e2] n c have "c < n" and "buffer' 0 = b1 0" by auto
  with b1 fn c show ?thesis by (auto simp: gp_consts)
qed

lemma tree_rand_loop_result:
  assumes "tree_rand_loop u xcsf buffer rng = Some r"
  shows "\<forall>n buffer' rng'. r = Inr (n, buffer', rng') \<longrightarrow>
     0 \<le> n \<and> (\<exists>buffer0 rng0.
        tree_grow u xcsf buffer0 0 GP_MAX_LEN (GP_INIT_DEPTH xcsf) rng0 = Inr (n, buffer', rng'))"
  using assms
proof (induction u xcsf buffer rng r rule: tree_rand_loop.raw_induct[rotated 1, consumes 1])
  case (1 loop u xcsf buffer rng r)
  show ?case
  proof (cases "tree_grow u xcsf buffer 0 GP_MAX_LEN (GP_INIT_DEPTH xcsf) rng")
    case (Inl e)
    with 1(2) show ?thesis by auto
  next
    case (Inr res)
    obtain m b1 r1 where res: "res = (m, b1, r1)" by (cases res)
    show ?thesis
    proof (cases "m < 0")
      case True
      with 1(2) Inr res have "loop u xcsf b1 r1 = Some r" by simp
      from 1(1)[OF this] show ?thesis .
    next
      case False
      with 1(2) Inr res show ?thesis by auto
    qed
  qed
qed

text \<open>
  The first attempt of the script below runs down a spine of functions until position
  \<open>GP_MAX_LEN\<close>: each level takes two draws, the last one a single draw.
\<close>

lemma tree_grow_script_overflow:
  "depth < 0 \<Longrightarrow> 0 \<le> pos \<Longrightarrow> pos + int k = GP_MAX_LEN \<Longrightarrow>
     \<exists>buffer'. tree_grow script_utils xcsf buffer pos GP_MAX_LEN depth
                  (replicate (2 * k + 1) 1 @ rest) = Inr (- 1, buffer', rest)"
proof (induction k arbitrary: pos depth buffer)
  case 0
  then show ?case
    by (subst tree_grow.simps) (simp add: script_utils_def)
next
  case (Suc k)
  from Suc.prems have lt: "\<not> GP_MAX_LEN \<le> pos" by simp
  have rep: "replicate (2 * Suc k + 1) (1::int) @ rest = 1 # 1 # replicate (2 * k + 1) 1 @ rest"
    by simp
  have "depth - 1 < 0" and "0 \<le> pos + 1" and "pos + 1 + int k = GP_MAX_LEN"
    using Suc.prems by simp_all
  from Suc.IH[OF this, of "buffer(nat pos := SUB)"]
  obtain b1 where ih: "tree_grow script_utils xcsf (buffer(nat pos := SUB)) (pos + 1)
                         GP_MAX_LEN (depth - 1) (replicate (2 * k + 1) 1 @ rest)
                       = Inr (- 1, b1, rest)"
    by blast
  show ?case
    unfolding rep
    by (subst tree_grow.simps) (use Suc.prems lt ih in \<open>simp add: script_utils_def gp_consts\<close>)
qed

lemma tree_grow_second_attempt:
  "tree_grow script_utils (example_xcsf (- 1)) buffer 0 GP_MAX_LEN (- 1) [1, 0, 0, 0, 0, 1] =
     Inr (3, buffer(0 := 0, 1 := 4, 2 := 5), [])"
  by (simp add: tree_grow.simps script_utils_def example_xcsf_def gp_consts GP_MAX_LEN_def)


text \<open>
  C6 as the spec states it fails for \<open>GP_INIT_DEPTH = 0\<close>: the test \<^verbatim>\<open>depth == 0\<close> sends
  the root to the terminal branch although \<open>prim\<close> was forced to 1, and the tree is the
  single terminal 5.
\<close>

theorem tree_rand_depth_zero_counterexample:
  "tree_rand script_utils (example_xcsf 0) blank_tree (\<lambda>i. 0) [0, 1] =
     Some (Inr (\<lparr>tree = [5], len = 1, p = 0, mu = Some [1 / 2]\<rparr>, [])) \<and>
   \<not> ([5] ! 0 < GP_NUM_FUNC)"
proof -
  have "tree_grow script_utils (example_xcsf 0) (\<lambda>i. 0) 0 GP_MAX_LEN 0 [0, 1] =
          Inr (1, (\<lambda>i. 0)(0 := 5), [])"
    by (simp add: tree_grow.simps script_utils_def example_xcsf_def gp_consts GP_MAX_LEN_def)
  then have "tree_rand_loop script_utils (example_xcsf 0) (\<lambda>i. 0) [0, 1] =
          Some (Inr (1, (\<lambda>i. 0)(0 := 5), []))"
    by (subst tree_rand_loop.simps) (simp add: example_xcsf_def)
  then show ?thesis
    by (simp add: tree_rand_def script_utils_def blank_tree_def gp_consts)
qed

text \<open>
  C6, amended. For every tree produced by \<^verbatim>\<open>tree_rand\<close> with \<open>GP_INIT_DEPTH \<noteq> 0\<close>, for
  every generator and every state of it, the tree has \<open>len \<ge> 1\<close> codes and the code at
  position 0 is a function (\<open>0 \<le> code < 4\<close>). Whenever \<^verbatim>\<open>tree_grow\<close> returns a negative
  length (the length \<open>GP_MAX_LEN\<close> was exceeded mid-growth), the attempt is discarded and
  \<^verbatim>\<open>tree_rand\<close> continues as a fresh growth from position 0 with the full depth, from
  the generator state that attempt left.
\<close>

theorem tree_rand_root_function:
  "(GP_INIT_DEPTH xcsf \<noteq> 0 \<and> tree_rand u xcsf gp buffer rng = Some (Inr (gp', rng')) \<longrightarrow>
      1 \<le> len gp' \<and> int (length (tree gp')) = len gp' \<and>
      0 \<le> tree gp' ! 0 \<and> tree gp' ! 0 < GP_NUM_FUNC) \<and>
   (tree_grow u xcsf buffer 0 GP_MAX_LEN (GP_INIT_DEPTH xcsf) rng = Inr (n, buffer1, rng1) \<and>
    n < 0 \<longrightarrow>
      tree_rand u xcsf gp buffer rng = tree_rand u xcsf gp buffer1 rng1)"
proof (intro conjI impI)
  assume a: "GP_INIT_DEPTH xcsf \<noteq> 0 \<and> tree_rand u xcsf gp buffer rng = Some (Inr (gp', rng'))"
  then obtain m b1 r1 where
    loop: "tree_rand_loop u xcsf buffer rng = Some (Inr (m, b1, r1))" and
    gp': "gp' = gp\<lparr>len := m, tree := map b1 [0..<nat m], mu := Some (fst (sam_init u r1))\<rparr>"
    by (auto simp: tree_rand_def split: option.splits sum.splits prod.splits)
  from tree_rand_loop_result[OF loop] obtain buffer0 rng0 where
    m: "0 \<le> m" and
    grow: "tree_grow u xcsf buffer0 0 GP_MAX_LEN (GP_INIT_DEPTH xcsf) rng0 = Inr (m, b1, r1)"
    by blast
  from tree_grow_root[OF grow _ m] a have root: "0 \<le> b1 0 \<and> b1 0 < GP_NUM_FUNC \<and> 1 \<le> m"
    by simp
  then have "0 < nat m" by simp
  then have "map b1 [0..<nat m] ! 0 = b1 0" by simp
  with root m show "1 \<le> len gp'" and "int (length (tree gp')) = len gp'"
    and "0 \<le> tree gp' ! 0" and "tree gp' ! 0 < GP_NUM_FUNC"
    by (simp_all add: gp')
next
  assume "tree_grow u xcsf buffer 0 GP_MAX_LEN (GP_INIT_DEPTH xcsf) rng = Inr (n, buffer1, rng1)
          \<and> n < 0"
  then have "tree_rand_loop u xcsf buffer rng = tree_rand_loop u xcsf buffer1 rng1"
    by (subst tree_rand_loop.simps) simp
  then show "tree_rand u xcsf gp buffer rng = tree_rand u xcsf gp buffer1 rng1"
    by (simp add: tree_rand_def)
qed

text \<open>
  A run that restarts once: the first attempt of \<open>regrow_script\<close> (depth \<open>-1\<close>, so no level
  is the last) exceeds \<open>GP_MAX_LEN\<close> and is discarded, the second yields \<open>ADD(c, IN:0)\<close>.
\<close>

theorem tree_rand_root_function_witness:
  "GP_INIT_DEPTH (example_xcsf (- 1)) \<noteq> 0 \<and>
   (\<exists>buffer1. tree_grow script_utils (example_xcsf (- 1)) (\<lambda>i. 0) 0 GP_MAX_LEN
                 (GP_INIT_DEPTH (example_xcsf (- 1))) regrow_script
               = Inr (- 1, buffer1, [1, 0, 0, 0, 0, 1])) \<and>
   tree_rand script_utils (example_xcsf (- 1)) blank_tree (\<lambda>i. 0) regrow_script =
     Some (Inr (\<lparr>tree = [0, 4, 5], len = 3, p = 0, mu = Some [1 / 2]\<rparr>, [])) \<and>
   [0, 4, 5] ! 0 < GP_NUM_FUNC"
proof -
  let ?x = "example_xcsf (- 1)"
  have depth: "GP_INIT_DEPTH ?x = - 1" by (simp add: example_xcsf_def)
  from tree_grow_script_overflow[of "- 1" 0 10000 ?x "\<lambda>i. 0" "[1, 0, 0, 0, 0, 1]"]
  obtain buffer1 where
    first: "tree_grow script_utils ?x (\<lambda>i. 0) 0 GP_MAX_LEN (GP_INIT_DEPTH ?x) regrow_script
              = Inr (- 1, buffer1, [1, 0, 0, 0, 0, 1])"
    by (auto simp: regrow_script_def GP_MAX_LEN_def depth)
  have second: "tree_rand script_utils ?x blank_tree buffer1 [1, 0, 0, 0, 0, 1] =
      Some (Inr (\<lparr>tree = [0, 4, 5], len = 3, p = 0, mu = Some [1 / 2]\<rparr>, []))"
  proof -
    have "tree_rand_loop script_utils ?x buffer1 [1, 0, 0, 0, 0, 1] =
            Some (Inr (3, buffer1(0 := 0, 1 := 4, 2 := 5), []))"
      by (subst tree_rand_loop.simps) (simp add: depth tree_grow_second_attempt)
    moreover have "[0..<3] = [0, 1, 2::nat]"
      by (simp add: upt_rec)
    ultimately show ?thesis
      by (simp add: tree_rand_def script_utils_def blank_tree_def)
  qed
  from tree_rand_root_function[of ?x script_utils blank_tree "\<lambda>i. 0" regrow_script
         "\<lparr>tree = [0, 4, 5], len = 3, p = 0, mu = Some [1 / 2]\<rparr>" "[]"
         "- 1" buffer1 "[1, 0, 0, 0, 0, 1]"]
       first second depth
  show ?thesis
    by (auto simp: gp_consts)
qed

section \<open>The result of a point mutation\<close>

lemma tree_mutate_loop_changed:
  "tree_mutate_loop u ops m tmax k i t changed rng = Inr (t', changed', rng') \<Longrightarrow>
     length t' = length t \<and> (changed \<longrightarrow> changed') \<and> (\<not> changed' \<longrightarrow> t' = t)"
proof (induction k arbitrary: i t changed rng)
  case 0
  then show ?case by simp
next
  case (Suc k)
  obtain d rng1 where d: "rand_uniform u 0 1 rng = (d, rng1)"
    by (cases "rand_uniform u 0 1 rng")
  show ?case
  proof (cases "fp_less ops d (m ! 0)")
    case False
    with Suc.prems d have "tree_mutate_loop u ops m tmax k (i + 1) t changed rng1
                             = Inr (t', changed', rng')"
      by (simp split: if_splits)
    from Suc.IH[OF this] show ?thesis .
  next
    case True
    obtain lo where lo: "lo = (if t ! i \<ge> GP_NUM_FUNC then GP_NUM_FUNC else 0)" by simp
    obtain hi where hi: "hi = (if t ! i \<ge> GP_NUM_FUNC then tmax else GP_NUM_FUNC)" by simp
    obtain v rng2 where v: "irand_uniform u lo hi rng1 = (v, rng2)"
      by (cases "irand_uniform u lo hi rng1")
    from Suc.prems d True v lo hi
    have "tree_mutate_loop u ops m tmax k (i + 1) (t[i := v]) True rng2
            = Inr (t', changed', rng')"
      by (simp split: if_splits)
    from Suc.IH[OF this] show ?thesis by simp
  qed
qed

text \<open>
  When \<^verbatim>\<open>tree_mutate\<close> returns false the code array is the array before, so it returns
  true whenever a code differs. The number of codes, \<open>len\<close> and \<open>p\<close> never change.
\<close>

lemma tree_mutate_differs_changed:
  assumes run: "tree_mutate u ops xcsf gp rng = Inr (changed, gp', rng')"
  shows "length (tree gp') = length (tree gp) \<and> len gp' = len gp \<and> p gp' = p gp \<and>
         (tree gp' \<noteq> tree gp \<longrightarrow> changed)"
proof -
  from run obtain m0 m rng1 t where
    loop: "tree_mutate_loop u ops m (GP_NUM_FUNC + GP_NUM_CONS xcsf + x_dim xcsf)
             (nat (len gp)) 0 (tree gp) False rng1 = Inr (t, changed, rng')" and
    gp': "gp' = gp\<lparr>tree := t, mu := Some m\<rparr>"
    by (auto simp: tree_mutate_def bind_err_def split: option.splits prod.splits sum.splits)
  from tree_mutate_loop_changed[OF loop] gp' show ?thesis by auto
qed

text \<open>
  Functions are replaced by functions and terminals by terminals: with a generator whose
  draws lie in the range asked for, every code of the mutated tree is of the kind it was.
\<close>

lemma tree_mutate_loop_kinds:
  assumes gen: "\<And>lo hi r. lo < hi \<Longrightarrow>
                  lo \<le> fst (irand_uniform u lo hi r) \<and> fst (irand_uniform u lo hi r) < hi"
    and tm: "GP_NUM_FUNC < tmax"
  shows "tree_mutate_loop u ops m tmax k i t changed rng = Inr (t', changed', rng') \<Longrightarrow>
           j < length t \<Longrightarrow> 0 \<le> t ! j \<Longrightarrow>
           (GP_NUM_FUNC \<le> t' ! j) = (GP_NUM_FUNC \<le> t ! j) \<and> 0 \<le> t' ! j"
proof (induction k arbitrary: i t changed rng)
  case 0
  then show ?case by simp
next
  case (Suc k)
  obtain d rng1 where d: "rand_uniform u 0 1 rng = (d, rng1)"
    by (cases "rand_uniform u 0 1 rng")
  show ?case
  proof (cases "fp_less ops d (m ! 0)")
    case False
    with Suc.prems(1) d have "tree_mutate_loop u ops m tmax k (i + 1) t changed rng1
                             = Inr (t', changed', rng')"
      by (simp split: if_splits)
    from Suc.IH[OF this Suc.prems(2,3)] show ?thesis .
  next
    case True
    obtain lo where lo: "lo = (if t ! i \<ge> GP_NUM_FUNC then GP_NUM_FUNC else 0)" by simp
    obtain hi where hi: "hi = (if t ! i \<ge> GP_NUM_FUNC then tmax else GP_NUM_FUNC)" by simp
    obtain v rng2 where v: "irand_uniform u lo hi rng1 = (v, rng2)"
      by (cases "irand_uniform u lo hi rng1")
    from Suc.prems(1) d True v lo hi
    have inb: "i < length t" and
      rest: "tree_mutate_loop u ops m tmax k (i + 1) (t[i := v]) True rng2
               = Inr (t', changed', rng')"
      by (simp_all split: if_splits)
    have "lo < hi" using lo hi tm by (simp add: GP_NUM_FUNC_def)
    from gen[OF this, of rng1] v have vr: "lo \<le> v" "v < hi" by simp_all
    have kind: "(GP_NUM_FUNC \<le> t[i := v] ! j) = (GP_NUM_FUNC \<le> t ! j) \<and> 0 \<le> t[i := v] ! j"
      using vr lo hi inb Suc.prems(2,3)
      by (cases "j = i") (auto simp: GP_NUM_FUNC_def split: if_splits)
    from Suc.IH[OF rest] Suc.prems(2) kind show ?thesis by simp
  qed
qed

text \<open>
  C7 fails on the code, whose documentation says that \<^verbatim>\<open>tree_mutate\<close> returns whether
  any alterations were made. On the tree \<open>ADD(c, IN:0)\<close> the root is selected (the draw 0
  is below \<open>mu[0] = 1/2\<close>) and resampled among the functions to \<open>ADD\<close>, the code it holds;
  the two leaves are not selected. \<^verbatim>\<open>tree_mutate\<close> returns true, and the tree it leaves,
  rates included, is the tree before. With no node selected the same tree is left and the
  result is false.
\<close>

theorem tree_mutate_true_without_alteration:
  "valid_tree sum_tree \<and>
   tree_mutate script_utils real_ops (example_xcsf 5) sum_tree [0, 0, 99, 99] =
     Inr (True, sum_tree, []) \<and>
   tree_mutate script_utils real_ops (example_xcsf 5) sum_tree [99, 99, 99] =
     Inr (False, sum_tree, [])"
proof (intro conjI)
  show "valid_tree sum_tree"
    by (simp add: valid_tree_def sum_tree_def tree_traverse.simps gp_consts)
  show "tree_mutate script_utils real_ops (example_xcsf 5) sum_tree [0, 0, 99, 99] =
          Inr (True, sum_tree, [])"
    by (simp add: tree_mutate_def sum_tree_def script_utils_def real_ops_def example_xcsf_def
                  bind_err_def gp_consts eval_nat_numeral)
  show "tree_mutate script_utils real_ops (example_xcsf 5) sum_tree [99, 99, 99] =
          Inr (False, sum_tree, [])"
    by (simp add: tree_mutate_def sum_tree_def script_utils_def real_ops_def example_xcsf_def
                  bind_err_def gp_consts eval_nat_numeral)
qed

section \<open>Boolean configuration keys\<close>

lemma strncmp_zero_iff:
  "n \<le> length s2 \<Longrightarrow> CHR 0x00 \<notin> set s2 \<Longrightarrow>
     strncmp s1 s2 n = 0 \<longleftrightarrow> take n s1 = take n s2"
proof (induction s1 s2 n rule: strncmp.induct)
  case (1 s1 s2)
  show ?case by simp
next
  case (2 n)
  then show ?case by simp
next
  case (3 b bs n)
  then have "b \<noteq> CHR 0x00" by auto
  moreover have "(of_char (CHR 0x00) :: nat) = 0" by simp
  ultimately have "(of_char b :: nat) \<noteq> 0"
    by (metis of_char_eq_iff)
  then show ?case by simp
next
  case (4 a as n)
  then show ?case by simp
next
  case (5 a as b bs n)
  then show ?case by auto
qed

lemma strncmp_true_iff: "strncmp v ''true'' 4 = 0 \<longleftrightarrow> take 4 v = ''true''"
  using strncmp_zero_iff[of 4 "''true''" v] by simp

lemma config_bool_prefix:
  "getvalue params key = Some v \<Longrightarrow> config_bool params key = Inr (take 4 v = ''true'')"
  by (simp add: config_bool_def strncmp_true_iff if_bool_eq_conj)

lemma constants_init_bools_fields:
  assumes "constants_init_bools params = Inr flags"
  shows "config_bool params ''POP_INIT'' = Inr (POP_INIT flags)"
    and "config_bool params ''EA_SUBSUMPTION'' = Inr (EA_SUBSUMPTION flags)"
    and "config_bool params ''SET_SUBSUMPTION'' = Inr (SET_SUBSUMPTION flags)"
    and "config_bool params ''RESET_STATES'' = Inr (RESET_STATES flags)"
    and "config_bool params ''COND_EVOLVE_WEIGHTS'' = Inr (COND_EVOLVE_WEIGHTS flags)"
    and "config_bool params ''COND_EVOLVE_NEURONS'' = Inr (COND_EVOLVE_NEURONS flags)"
    and "config_bool params ''COND_EVOLVE_FUNCTIONS'' = Inr (COND_EVOLVE_FUNCTIONS flags)"
    and "config_bool params ''PRED_EVOLVE_WEIGHTS'' = Inr (PRED_EVOLVE_WEIGHTS flags)"
    and "config_bool params ''PRED_EVOLVE_NEURONS'' = Inr (PRED_EVOLVE_NEURONS flags)"
    and "config_bool params ''PRED_EVOLVE_FUNCTIONS'' = Inr (PRED_EVOLVE_FUNCTIONS flags)"
    and "config_bool params ''PRED_EVOLVE_ETA'' = Inr (PRED_EVOLVE_ETA flags)"
    and "config_bool params ''PRED_SGD_WEIGHTS'' = Inr (PRED_SGD_WEIGHTS flags)"
    and "config_bool params ''PRED_RESET'' = Inr (PRED_RESET flags)"
  using assms
  by (auto simp: constants_init_bools_def bind_err_def split: sum.splits)

lemma config_bool_Inr_value:
  "config_bool params key = Inr b \<Longrightarrow> \<exists>v. getvalue params key = Some v \<and> b = (take 4 v = ''true'')"
  by (auto simp: config_bool_def strncmp_true_iff if_bool_eq_conj split: option.splits)

text \<open>
  C8 as the spec states it fails: the stored value \<open>''true ''\<close> is not the literal string
  \<open>''true''\<close> and the key is parsed as true.
\<close>

theorem config_bool_not_literal_counterexample:
  "getvalue example_params ''POP_INIT'' = Some ''true '' \<and> ''true '' \<noteq> ''true'' \<and>
   constants_init_bools example_params =
     Inr \<lparr>POP_INIT = True, EA_SUBSUMPTION = True, SET_SUBSUMPTION = False,
          RESET_STATES = False, COND_EVOLVE_WEIGHTS = False, COND_EVOLVE_NEURONS = False,
          COND_EVOLVE_FUNCTIONS = False, PRED_EVOLVE_WEIGHTS = False,
          PRED_EVOLVE_NEURONS = False, PRED_EVOLVE_FUNCTIONS = False,
          PRED_EVOLVE_ETA = False, PRED_SGD_WEIGHTS = False, PRED_RESET = False\<rparr>"
  by (simp add: example_params_def constants_init_bools_def bind_err_def config_bool_def
                strncmp_true_iff)

text \<open>
  C8, amended. For every boolean configuration key, the parsed value is true exactly when
  the first four characters of the stored value string are \<open>true\<close> (the comparison is
  \<^verbatim>\<open>strncmp\<close> over 4 characters), and false for any other string.
\<close>

theorem config_bool_true_prefix:
  "constants_init_bools params = Inr flags \<Longrightarrow>
     \<forall>(key, field) \<in> set bool_keys.
        \<exists>v. getvalue params key = Some v \<and> field flags = (take 4 v = ''true'')"
  using constants_init_bools_fields[of params flags]
  by (simp add: bool_keys_def config_bool_Inr_value)

theorem config_bool_true_prefix_witness:
  "constants_init_bools example_params =
     Inr \<lparr>POP_INIT = True, EA_SUBSUMPTION = True, SET_SUBSUMPTION = False,
          RESET_STATES = False, COND_EVOLVE_WEIGHTS = False, COND_EVOLVE_NEURONS = False,
          COND_EVOLVE_FUNCTIONS = False, PRED_EVOLVE_WEIGHTS = False,
          PRED_EVOLVE_NEURONS = False, PRED_EVOLVE_FUNCTIONS = False,
          PRED_EVOLVE_ETA = False, PRED_SGD_WEIGHTS = False, PRED_RESET = False\<rparr> \<and>
   (\<exists>v. getvalue example_params ''SET_SUBSUMPTION'' = Some v \<and> take 4 v \<noteq> ''true'') \<and>
   (\<exists>v. getvalue example_params ''POP_INIT'' = Some v \<and> take 4 v = ''true'')"
proof -
  have run: "constants_init_bools example_params =
     Inr \<lparr>POP_INIT = True, EA_SUBSUMPTION = True, SET_SUBSUMPTION = False,
          RESET_STATES = False, COND_EVOLVE_WEIGHTS = False, COND_EVOLVE_NEURONS = False,
          COND_EVOLVE_FUNCTIONS = False, PRED_EVOLVE_WEIGHTS = False,
          PRED_EVOLVE_NEURONS = False, PRED_EVOLVE_FUNCTIONS = False,
          PRED_EVOLVE_ETA = False, PRED_SGD_WEIGHTS = False, PRED_RESET = False\<rparr>"
    by (simp add: example_params_def constants_init_bools_def bind_err_def config_bool_def
                  strncmp_true_iff)
  from config_bool_true_prefix[OF run] run show ?thesis
    by (simp add: bool_keys_def)
qed

section \<open>Validation of layer arguments\<close>

lemma layer_args_validate_loop_Inr:
  "layer_args_validate_loop args = Inr args' \<Longrightarrow>
     args' = map (\<lambda>a. if n_max a < n_init a then a\<lparr>n_max := n_init a\<rparr> else a) args \<and>
     (\<forall>a \<in> set args. \<not> (evolve_neurons a \<and> max_neuron_grow a < 1))"
proof (induction args arbitrary: args')
  case Nil
  then show ?case by simp
next
  case (Cons a args)
  then show ?case
    by (auto simp: Let_def split: if_splits sum.splits)
qed

lemma layer_args_validate_loop_Inl:
  "layer_args_validate_loop args = Inl e \<Longrightarrow>
     e = MaxNeuronGrow \<and> (\<exists>a \<in> set args. evolve_neurons a \<and> max_neuron_grow a < 1)"
proof (induction args)
  case Nil
  then show ?case by simp
next
  case (Cons a args)
  then show ?case
    by (auto simp: Let_def split: if_splits sum.splits)
qed

lemma layer_args_validate_loop_fatal:
  "\<exists>a \<in> set args. evolve_neurons a \<and> max_neuron_grow a < 1 \<Longrightarrow>
     layer_args_validate_loop args = Inl MaxNeuronGrow"
proof (induction args)
  case Nil
  then show ?case by simp
next
  case (Cons a args)
  then show ?case
    by (cases "layer_args_validate_loop args")
       (auto simp: Let_def dest: layer_args_validate_loop_Inr layer_args_validate_loop_Inl)
qed

lemma layer_args_validate_inputs_keeps:
  "layer_args_validate_inputs ri arg = Inr arg1 \<Longrightarrow>
     n_init arg1 = n_init arg \<and> n_max arg1 = n_max arg \<and>
     evolve_neurons arg1 = evolve_neurons arg \<and> max_neuron_grow arg1 = max_neuron_grow arg"
  by (auto simp: layer_args_validate_inputs_def Let_def split: if_splits)

text \<open>
  The size of the inputs of a dropout or noise node is the product of its three image
  dimensions as an \<^verbatim>\<open>int\<close>: 46341 by 46341 is stored as a negative number and the node is
  refused for having no inputs.
\<close>

lemma layer_args_validate_inputs_wide:
  "int_mul (int_mul 1 46341) 46341 = - 2147479015 \<and>
   layer_args_validate_inputs layer_receives_images example_args_wide = Inl NumInputs"
  by (simp add: int_mul_def layer_args_validate_inputs_def layer_receives_images_def
                example_args_wide_def)

text \<open>
  C9. \<^verbatim>\<open>layer_args_validate\<close> never reports an error for a node with
  \<open>n_max < n_init\<close>: every error it returns is the empty list, an input error of the first
  node, or a node that evolves neurons with \<open>max_neuron_grow < 1\<close>. Where \<open>n_max\<close> is
  below \<open>n_init\<close> it is raised to \<open>n_init\<close>, and it is left alone elsewhere, so after a
  validation that returns every node has \<open>n_max \<ge> n_init\<close>. An empty list is fatal, and so is a node that
  evolves neurons with \<open>max_neuron_grow < 1\<close>.
\<close>

theorem layer_args_validate_n_max:
  "(layer_args_validate ri [] = Inl EmptyArgs) \<and>
   ((\<exists>a \<in> set args. evolve_neurons a \<and> max_neuron_grow a < 1) \<longrightarrow>
      (\<exists>e. layer_args_validate ri args = Inl e)) \<and>
   (layer_args_validate ri args = Inl e \<longrightarrow>
      args = [] \<and> e = EmptyArgs \<or>
      args \<noteq> [] \<and> layer_args_validate_inputs ri (hd args) = Inl e \<or>
      e = MaxNeuronGrow \<and> (\<exists>a \<in> set args. evolve_neurons a \<and> max_neuron_grow a < 1)) \<and>
   (layer_args_validate ri args = Inr args' \<longrightarrow>
      length args' = length args \<and>
      (\<forall>i < length args. n_init (args' ! i) = n_init (args ! i) \<and>
         n_max (args' ! i) = max (n_max (args ! i)) (n_init (args ! i))) \<and>
      (\<forall>a \<in> set args'. n_max a \<ge> n_init a))"
proof (intro conjI impI)
  show "layer_args_validate ri [] = Inl EmptyArgs"
    by (simp add: layer_args_validate_def)
next
  assume bad: "\<exists>a \<in> set args. evolve_neurons a \<and> max_neuron_grow a < 1"
  then obtain arg rest where args: "args = arg # rest" by (cases args) auto
  show "\<exists>e. layer_args_validate ri args = Inl e"
  proof (cases "layer_args_validate_inputs ri arg")
    case (Inl e)
    then show ?thesis by (simp add: layer_args_validate_def args)
  next
    case (Inr arg1)
    from layer_args_validate_inputs_keeps[OF Inr] bad
    have "\<exists>a \<in> set (arg1 # rest). evolve_neurons a \<and> max_neuron_grow a < 1"
      by (auto simp: args)
    from layer_args_validate_loop_fatal[OF this] Inr show ?thesis
      by (simp add: layer_args_validate_def args)
  qed
next
  assume err: "layer_args_validate ri args = Inl e"
  show "args = [] \<and> e = EmptyArgs \<or>
      args \<noteq> [] \<and> layer_args_validate_inputs ri (hd args) = Inl e \<or>
      e = MaxNeuronGrow \<and> (\<exists>a \<in> set args. evolve_neurons a \<and> max_neuron_grow a < 1)"
  proof (cases args)
    case Nil
    with err show ?thesis by (simp add: layer_args_validate_def)
  next
    case (Cons arg rest)
    show ?thesis
    proof (cases "layer_args_validate_inputs ri arg")
      case (Inl e')
      with err Cons show ?thesis by (simp add: layer_args_validate_def)
    next
      case (Inr arg1)
      with err Cons have "layer_args_validate_loop (arg1 # rest) = Inl e"
        by (simp add: layer_args_validate_def)
      from layer_args_validate_loop_Inl[OF this] layer_args_validate_inputs_keeps[OF Inr]
      show ?thesis by (auto simp: Cons)
    qed
  qed
next
  assume ok: "layer_args_validate ri args = Inr args'"
  then obtain arg rest arg1 where args: "args = arg # rest"
    and inp: "layer_args_validate_inputs ri arg = Inr arg1"
    and loop: "layer_args_validate_loop (arg1 # rest) = Inr args'"
    by (auto simp: layer_args_validate_def split: list.splits sum.splits)
  let ?fix = "\<lambda>a. if n_max a < n_init a then a\<lparr>n_max := n_init a\<rparr> else a"
  from layer_args_validate_loop_Inr[OF loop] have eq: "args' = map ?fix (arg1 # rest)"
    by simp
  show "length args' = length args" by (simp add: eq args)
  show "\<forall>i < length args. n_init (args' ! i) = n_init (args ! i) \<and>
         n_max (args' ! i) = max (n_max (args ! i)) (n_init (args ! i))"
  proof (intro allI impI)
    fix i assume "i < length args"
    then show "n_init (args' ! i) = n_init (args ! i) \<and>
         n_max (args' ! i) = max (n_max (args ! i)) (n_init (args ! i))"
      using layer_args_validate_inputs_keeps[OF inp]
      by (cases i) (auto simp: eq args)
  qed
  show "\<forall>a \<in> set args'. n_max a \<ge> n_init a"
    by (auto simp: eq)
qed

theorem layer_args_validate_n_max_witness:
  "(\<exists>a \<in> set example_args_bad. evolve_neurons a \<and> max_neuron_grow a < 1) \<and>
   layer_args_validate layer_receives_images example_args_bad = Inl MaxNeuronGrow \<and>
   (\<exists>a \<in> set example_args. n_max a < n_init a) \<and>
   layer_args_validate layer_receives_images example_args =
     Inr (map (\<lambda>a. a\<lparr>n_max := n_init a\<rparr>) example_args) \<and>
   n_max (map (\<lambda>a. a\<lparr>n_max := n_init a\<rparr>) example_args ! 0) = 10 \<and>
   n_max (map (\<lambda>a. a\<lparr>n_max := n_init a\<rparr>) example_args ! 1) = 1"
proof -
  have bad: "\<exists>a \<in> set example_args_bad. evolve_neurons a \<and> max_neuron_grow a < 1"
    by (simp add: example_args_bad_def)
  have run_bad: "layer_args_validate layer_receives_images example_args_bad = Inl MaxNeuronGrow"
    by (simp add: example_args_bad_def layer_args_validate_def layer_args_validate_inputs_def
                  layer_receives_images_def)
  have run: "layer_args_validate layer_receives_images example_args =
     Inr (map (\<lambda>a. a\<lparr>n_max := n_init a\<rparr>) example_args)"
    by (simp add: example_args_def layer_args_validate_def layer_args_validate_inputs_def
                  layer_receives_images_def)
  have low: "\<exists>a \<in> set example_args. n_max a < n_init a"
    by (simp add: example_args_def)
  from layer_args_validate_n_max[of layer_receives_images example_args MaxNeuronGrow
         "map (\<lambda>a. a\<lparr>n_max := n_init a\<rparr>) example_args"]
       layer_args_validate_n_max[of layer_receives_images example_args_bad MaxNeuronGrow "[]"]
       bad run_bad run low
  show ?thesis by (simp add: example_args_def)
qed

section \<open>Inserting at or past the end\<close>

text \<open>
  C10. For every non-empty net, \<^verbatim>\<open>insert(layer, pos)\<close> with \<open>pos \<ge> n_layers\<close> is not an
  error: the walk from the tail ends at NULL after \<open>n_layers\<close> steps, and the new node
  becomes the head, above the old head, with \<open>n_outputs\<close> and the cached output pointer
  set to the new layer's and \<open>n_inputs\<close> and \<open>tail\<close> kept. \<^verbatim>\<open>neural_push\<close> is this call
  with \<open>pos = n_layers\<close>, and every \<open>pos \<ge> n_layers\<close> gives the result of the push.
\<close>

theorem neural_insert_past_end_is_push:
  assumes "net_chain h net as" and "as \<noteq> []" and "n_layers net \<le> pos"
  shows "\<exists>h' net' old_head new_nd.
           neural_insert h net l pos = Inr (h', net') \<and>
           neural_push h net l = Inr (h', net') \<and>
           head net = Some old_head \<and>
           head net' = Some (fresh h) \<and>
           cells h' (fresh h) = Some new_nd \<and> layer new_nd = l \<and>
           prev new_nd = None \<and> next new_nd = Some old_head \<and>
           deref h' (Some old_head) =
             bind_err (deref h (Some old_head)) (\<lambda>nd. Inr (nd\<lparr>prev := Some (fresh h)\<rparr>)) \<and>
           Net.n_outputs net' = Layer.n_outputs l \<and>
           Net.output net' = Layer.output l \<and>
           Net.n_inputs net' = Net.n_inputs net \<and> tail net' = tail net \<and>
           n_layers net' = n_layers net + 1 \<and>
           net_chain h' net' (as @ [fresh h])"
proof -
  from assms(1) have len: "n_layers net = int (length as)" by (simp add: net_chain_def)
  from net_chain_head(4)[OF assms(1,2)] obtain head_nd where
    nd: "cells h (last as) = Some head_nd" by blast
  have fr: "last as \<noteq> fresh h" using net_chain_head(3)[OF assms(1,2)] by simp
  let ?h' = "h\<lparr>cells := (cells h)(fresh h \<mapsto> \<lparr>layer = l, prev = None, next = Some (last as)\<rparr>,
                              last as \<mapsto> head_nd\<lparr>prev := Some (fresh h)\<rparr>),
            fresh := fresh h + 1\<rparr>"
  let ?net' = "net\<lparr>head := Some (fresh h), n_outputs := Layer.n_outputs l,
              output := Layer.output l, n_layers := n_layers net + 1\<rparr>"
  have ins: "neural_insert h net l pos = Inr (?h', ?net')"
    using neural_insert_at_head[OF assms(1,2) _ nd, of pos l] assms(3) len by simp
  have push: "neural_push h net l = Inr (?h', ?net')"
    using neural_insert_at_head[OF assms(1,2) _ nd, of "n_layers net" l] len
    by (simp add: neural_push_def)
  have chain': "net_chain ?h' ?net' (as @ [fresh h])"
    using net_chain_snoc[OF assms(1,2) nd, of l] by simp
  show ?thesis
    using ins push chain' fr nd net_chain_head(1)[OF assms(1,2)]
    by (simp add: deref_def bind_err_def)
qed

theorem neural_insert_past_end_is_push_witness:
  "net_chain heap_two net_two [0, 1] \<and> n_layers net_two \<le> 7 \<and>
   neural_insert heap_two net_two layer_c 7 = neural_push heap_two net_two layer_c \<and>
   (\<exists>h' net'. neural_push heap_two net_two layer_c = Inr (h', net') \<and>
      head net' = Some 2 \<and> Net.n_outputs net' = 5 \<and> Net.output net' = Some 300 \<and>
      Net.n_inputs net' = 2 \<and> net_chain h' net' [0, 1, 2])"
proof -
  have le: "n_layers net_two \<le> 7" by (simp add: net_two_def)
  from neural_insert_past_end_is_push[OF net_chain_two _ le, of layer_c] net_chain_two le
  show ?thesis
    by (auto simp: heap_two_def layer_c_def net_two_def)
qed

end
